theory Spec2Isabelle
  imports Complex_Main "HOL-Library.Multiset"
begin

section \<open>JavaScript values\<close>

text \<open>
  \<open>buildJobs\<close> is called from TypeScript, but its own body defends against values
  that are not of the declared types (\<open>toArraySafe\<close>, \<open>filter(Boolean)\<close>), so its
  arguments are modelled as untyped JavaScript values: the primitives and (dense) arrays.
  Numbers are the integers and \<open>NaN\<close>; strings are lists of code units. Plain objects
  and functions are not part of this universe, nor are the objects that are not arrays and
  have a \<open>forEach\<close> of their own (sets, maps, typed arrays): no theorem below speaks of a
  \<open>prompts\<close> argument other than a list, \<open>undefined\<close> or \<open>null\<close>.
\<close>

datatype jsval =
    JUndefined
  | JNull
  | JBool bool
  | JNum int
  | JNaN
  | JStr string
  | JArr "jsval list"

text \<open>The one exception the code under study can raise.\<close>

datatype js_error = TypeError

text \<open>\<open>Boolean(x)\<close>: the truthiness of a value, as used by \<open>filter(Boolean)\<close>.\<close>

fun Boolean :: "jsval \<Rightarrow> bool" where
  "Boolean JUndefined = False"
| "Boolean JNull = False"
| "Boolean (JBool b) = b"
| "Boolean (JNum n) = (n \<noteq> 0)"
| "Boolean JNaN = False"
| "Boolean (JStr s) = (s \<noteq> [])"
| "Boolean (JArr xs) = True"

text \<open>
  \<open>x.length\<close>: reading a property of \<open>undefined\<close> or \<open>null\<close> throws; a boolean or a
  number has no such property (the read gives \<open>undefined\<close>, here \<open>None\<close>).
\<close>

fun js_length :: "jsval \<Rightarrow> js_error + nat option" where
  "js_length JUndefined = Inl TypeError"
| "js_length JNull = Inl TypeError"
| "js_length (JStr s) = Inr (Some (length s))"
| "js_length (JArr xs) = Inr (Some (length xs))"
| "js_length (JBool b) = Inr None"
| "js_length (JNum n) = Inr None"
| "js_length JNaN = Inr None"

text \<open>\<open>x[i]\<close> for a non-negative integer \<open>i\<close>; out of range the read gives \<open>undefined\<close>.\<close>

fun js_index :: "jsval \<Rightarrow> nat \<Rightarrow> js_error + jsval" where
  "js_index JUndefined i = Inl TypeError"
| "js_index JNull i = Inl TypeError"
| "js_index (JStr s) i = Inr (if i < length s then JStr [s ! i] else JUndefined)"
| "js_index (JArr xs) i = Inr (if i < length xs then xs ! i else JUndefined)"
| "js_index (JBool b) i = Inr JUndefined"
| "js_index (JNum n) i = Inr JUndefined"
| "js_index JNaN i = Inr JUndefined"

text \<open>\<open>xs[i]\<close> on a value known to be an array.\<close>

definition arr_at :: "jsval list \<Rightarrow> nat \<Rightarrow> jsval" where
  "arr_at xs i = (if i < length xs then xs ! i else JUndefined)"

text \<open>\<open>xs[i]\<close> on an array whose elements are arrays (\<open>cleanedPerPrompt\<close>).\<close>

definition groups_at :: "jsval list list \<Rightarrow> nat \<Rightarrow> jsval" where
  "groups_at gs i = (if i < length gs then JArr (gs ! i) else JUndefined)"

text \<open>
  \<open>Math.min(a, n)\<close> where \<open>a\<close> is the result of a \<open>length\<close> read and \<open>n\<close> a number:
  \<open>undefined\<close> converts to \<open>NaN\<close> and the minimum is \<open>NaN\<close> (\<open>None\<close>).
\<close>

fun Math_min :: "nat option \<Rightarrow> nat \<Rightarrow> nat option" where
  "Math_min None n = None"
| "Math_min (Some a) n = Some (min a n)"

section \<open>Jobs and the pairing engine\<close>

definition ONE_TO_MANY :: jsval where "ONE_TO_MANY = JStr ''one-to-many''"
definition ZIP :: jsval where "ZIP = JStr ''zip''"
definition CARTESIAN :: jsval where "CARTESIAN = JStr ''cartesian''"

text \<open>
  A job. \<open>refs\<close> is a value rather than a list because the code stores whatever
  \<open>cleanedPerPrompt[i]\<close> reads. The payload is opaque and copied as it is.
\<close>

record 'p job =
  index :: nat
  prompt :: jsval
  refs :: jsval
  payload :: 'p

definition toArraySafe :: "jsval \<Rightarrow> jsval list \<Rightarrow> jsval list" where
  "toArraySafe x fallback = (case x of JArr xs \<Rightarrow> xs | _ \<Rightarrow> fallback)"

text \<open>
  One-to-many: \<open>prompts.forEach((p, idx) => jobs.push(...))\<close>, the index counted up
  from the start value.
\<close>

fun forEach_push :: "jsval list \<Rightarrow> nat \<Rightarrow> jsval \<Rightarrow> 'p \<Rightarrow> 'p job list \<Rightarrow> 'p job list" where
  "forEach_push [] idx rs pl jobs = jobs"
| "forEach_push (p # ps) idx rs pl jobs =
     forEach_push ps (Suc idx) rs pl
       (jobs @ [\<lparr>index = idx, prompt = p, refs = rs, payload = pl\<rparr>])"

text \<open>Zip: \<open>for (let i = 0; i < n; i++) jobs.push(...)\<close>.\<close>

function zip_loop ::
  "jsval \<Rightarrow> jsval list list \<Rightarrow> 'p \<Rightarrow> nat \<Rightarrow> nat \<Rightarrow> 'p job list \<Rightarrow> js_error + 'p job list" where
  "zip_loop prompts groups pl n i jobs =
     (if i < n then
        (case js_index prompts i of
           Inl e \<Rightarrow> Inl e
         | Inr p \<Rightarrow>
             zip_loop prompts groups pl n (Suc i)
               (jobs @ [\<lparr>index = i, prompt = p, refs = groups_at groups i, payload = pl\<rparr>]))
      else Inr jobs)"
  by pat_completeness auto
termination
  by (relation "measure (\<lambda>(prompts, groups, pl, n, i, jobs). n - i)") auto

declare zip_loop.simps [simp del]

text \<open>
  Cartesian: the two nested loops of the source differ only in the inner bound
  (\<open>cleanedPerPrompt.length\<close> or \<open>cleanedSharedRefs.length\<close>) and in the \<open>refs\<close> they
  push (\<open>cleanedPerPrompt[g]\<close> or \<open>[cleanedSharedRefs[r]]\<close>); both are parameters here.
  The state of the loops is the counter \<open>idx\<close> and the job array.
\<close>

function cart_inner ::
  "jsval \<Rightarrow> nat \<Rightarrow> nat \<Rightarrow> (nat \<Rightarrow> jsval) \<Rightarrow> 'p \<Rightarrow> nat \<Rightarrow> nat \<times> 'p job list
     \<Rightarrow> js_error + nat \<times> 'p job list" where
  "cart_inner prompts i len refs_at pl g st =
     (if g < len then
        (case js_index prompts i of
           Inl e \<Rightarrow> Inl e
         | Inr p \<Rightarrow>
             cart_inner prompts i len refs_at pl (Suc g)
               (Suc (fst st),
                snd st @ [\<lparr>index = fst st, prompt = p, refs = refs_at g, payload = pl\<rparr>]))
      else Inr st)"
  by pat_completeness auto
termination
  by (relation "measure (\<lambda>(prompts, i, len, refs_at, pl, g, st). len - g)") auto

declare cart_inner.simps [simp del]

function cart_outer ::
  "jsval \<Rightarrow> nat \<Rightarrow> (nat \<Rightarrow> jsval) \<Rightarrow> 'p \<Rightarrow> nat \<Rightarrow> nat \<times> 'p job list
     \<Rightarrow> js_error + 'p job list" where
  "cart_outer prompts len refs_at pl i st =
     (case js_length prompts of
        Inl e \<Rightarrow> Inl e
      | Inr None \<Rightarrow> Inr (snd st)
      | Inr (Some n) \<Rightarrow>
          if i < n then
            (case cart_inner prompts i len refs_at pl 0 st of
               Inl e \<Rightarrow> Inl e
             | Inr st' \<Rightarrow> cart_outer prompts len refs_at pl (Suc i) st')
          else Inr (snd st))"
  by pat_completeness auto
termination
  by (relation "measure (\<lambda>(prompts, len, refs_at, pl, i, st).
        (case js_length prompts of Inr (Some n) \<Rightarrow> n - i | _ \<Rightarrow> 0))") auto

declare cart_outer.simps [simp del]

text \<open>
  \<open>buildJobs\<close>. The result is \<open>Inl TypeError\<close> where the JavaScript throws. A mode
  that is neither \<open>one-to-many\<close> nor \<open>zip\<close> reaches the cartesian block. The two
  normalised inputs of the source, \<open>cleanedSharedRefs\<close> and \<open>cleanedPerPrompt\<close>, are
  functions of the raw arguments here.
\<close>

definition cleanedSharedRefs :: "jsval \<Rightarrow> jsval list" where
  "cleanedSharedRefs sharedRefs = filter Boolean (toArraySafe sharedRefs [])"

definition cleanedPerPrompt :: "jsval \<Rightarrow> jsval list list" where
  "cleanedPerPrompt perPromptRefs = map (\<lambda>g. toArraySafe g []) (toArraySafe perPromptRefs [])"

definition buildJobs ::
  "jsval \<Rightarrow> jsval \<Rightarrow> jsval \<Rightarrow> jsval \<Rightarrow> 'p \<Rightarrow> js_error + 'p job list" where
  "buildJobs mode sharedRefs prompts perPromptRefs extraPayload =
     (let shared = cleanedSharedRefs sharedRefs;
          groups = cleanedPerPrompt perPromptRefs
      in
        if mode = ONE_TO_MANY then
          (case prompts of
             JArr ps \<Rightarrow> Inr (forEach_push ps 0 (JArr shared) extraPayload [])
           | _ \<Rightarrow> Inl TypeError)
        else if mode = ZIP then
          (case js_length prompts of
             Inl e \<Rightarrow> Inl e
           | Inr len \<Rightarrow>
               (case Math_min len (length groups) of
                  None \<Rightarrow> Inr []
                | Some n \<Rightarrow> zip_loop prompts groups extraPayload n 0 []))
        else if length groups > 0 then
          cart_outer prompts (length groups) (groups_at groups) extraPayload 0 (0, [])
        else
          cart_outer prompts (length shared) (\<lambda>r. JArr [arr_at shared r])
            extraPayload 0 (0, []))"

text \<open>
  For the proofs: the job that a cartesian build over the prompt array \<open>ps\<close> holds at
  position \<open>n\<close>, when the inner loop runs \<open>len\<close> times and pushes \<open>refs_at g\<close> in its
  \<open>g\<close>-th round.
\<close>

definition cart_job :: "jsval list \<Rightarrow> nat \<Rightarrow> (nat \<Rightarrow> jsval) \<Rightarrow> 'p \<Rightarrow> nat \<Rightarrow> 'p job" where
  "cart_job ps len refs_at pl n =
     \<lparr>index = n, prompt = ps ! (n div len), refs = refs_at (n mod len), payload = pl\<rparr>"

section \<open>Handles and the simulated remote call\<close>

text \<open>
  A template literal \<open>`${n}`\<close> prints a non-negative integer below \<open>10\<^sup>2\<^sup>1\<close> in decimal;
  job indices are array positions, far below that.
\<close>

definition digit_char :: "nat \<Rightarrow> char" where
  "digit_char d = ''0123456789'' ! d"

function string_of_nat :: "nat \<Rightarrow> string" where
  "string_of_nat n =
     (if n < 10 then [digit_char n]
      else string_of_nat (n div 10) @ [digit_char (n mod 10)])"
  by pat_completeness auto
termination
  by (relation "measure (\<lambda>n. n)") auto

declare string_of_nat.simps [simp del]

datatype status = Queued | Running | Succeeded | Failed

record 'p handle =
  job_id :: string
  status :: status
  job :: "'p job"
  submit_ts :: int
  finish_ts :: "int option"
  result_placeholder :: "string option"
  error :: "string option"

text \<open>
  \<open>uid\<close>: the random part \<open>Math.random().toString(36).slice(2, 10)\<close> is the
  argument \<open>rnd\<close>.
\<close>

definition uid :: "string \<Rightarrow> string \<Rightarrow> string" where
  "uid prefix rnd = prefix @ ''_'' @ rnd"

text \<open>\<open>simulateSubmit\<close>, with the random suffix and the clock reading as arguments.\<close>

definition simulateSubmit :: "'p job \<Rightarrow> string \<Rightarrow> int \<Rightarrow> 'p handle" where
  "simulateSubmit j rnd now =
     \<lparr>job_id = uid ''job'' rnd, status = Queued, job = j, submit_ts = now,
      finish_ts = None, result_placeholder = None, error = None\<rparr>"

text \<open>
  \<open>simulateRunJob\<close> works on handle objects, so the model has an object store: a list of
  handles, a reference being a position in it. The call reads the handle behind the
  reference \<open>h\<close> and resolves to a reference to a freshly allocated object (the object
  literal \<open>{...handle, ...}\<close>). Its arguments beyond the source's are the two values drawn
  from \<open>Math.random()\<close> and the clock reading when the timer fires. The result is \<open>None\<close>
  only for an \<open>h\<close> that refers to no object of the store.
\<close>

record 'p run_result =
  delay_ms :: int
  store_after :: "'p handle list"
  resolved_to :: nat

definition simulateRunJob ::
  "'p handle list \<Rightarrow> nat \<Rightarrow> real \<times> real \<Rightarrow> real \<Rightarrow> real \<Rightarrow> real \<Rightarrow> int
     \<Rightarrow> 'p run_result option" where
  "simulateRunJob store h latencyMsRange failRate rnd1 rnd2 now =
     (if h < length store then
        (let (lo, hi) = latencyMsRange;
             ms = \<lfloor>lo + rnd1 * (hi - lo)\<rfloor>;
             old = store ! h;
             failed = (rnd2 < failRate);
             finished =
               (if failed then
                  old\<lparr>status := Failed, error := Some ''Simulated error'', finish_ts := Some now\<rparr>
                else
                  old\<lparr>status := Succeeded,
                     result_placeholder := Some (''OK:'' @ string_of_nat (index (job old))),
                     finish_ts := Some now\<rparr>)
         in Some \<lparr>delay_ms = ms, store_after = store @ [finished], resolved_to = length store\<rparr>)
      else None)"

section \<open>The lifecycle: Build, Submit, Collect\<close>

text \<open>
  The array \<open>aligned\<close> that \<open>onCollect\<close> computes from a job list and a result list.
  \<open>byIndex\<close> is filled by \<open>results.forEach\<close>, a later entry replacing an earlier one
  with the same job index. A handle object is truthy, so \<open>byIndex[j.index] || {...}\<close>
  takes the stored handle whenever there is one. \<open>clock k\<close> is what \<open>Date.now()\<close>
  reads when the placeholder for position \<open>k\<close> is built.
\<close>

definition byIndex :: "'p handle list \<Rightarrow> (nat \<rightharpoonup> 'p handle)" where
  "byIndex results = foldl (\<lambda>m r. m(index (job r) \<mapsto> r)) Map.empty results"

definition pending :: "'p job \<Rightarrow> int \<Rightarrow> 'p handle" where
  "pending j now =
     \<lparr>job_id = ''pending_'' @ string_of_nat (index j), status = Queued, job = j,
      submit_ts = now, finish_ts = None, result_placeholder = None, error = None\<rparr>"

definition aligned :: "'p job list \<Rightarrow> 'p handle list \<Rightarrow> (nat \<Rightarrow> int) \<Rightarrow> 'p handle list" where
  "aligned jobs results clock =
     map (\<lambda>(k, j). case byIndex results (index j) of Some r \<Rightarrow> r | None \<Rightarrow> pending j (clock k))
       (enumerate 0 jobs)"

text \<open>
  The component \<open>App\<close> keeps the job list, the handles, the results (the accumulator) and
  the auto-collect switch in React state: the fields of \<open>app\<close>, named after the state
  variables \<open>jobs\<close>, \<open>handles\<close>, \<open>results\<close> and \<open>autoCollect\<close>. (The flags \<open>submitting\<close> and
  \<open>collecting\<close> and the form inputs play no part below.)

  A handler is a closure of one render of the component. The state variables that it
  reads are constants of that render: the argument \<open>render\<close>. A call \<open>setX(v)\<close> replaces
  the value in the current state, the argument \<open>live\<close>, and a functional update
  \<open>setX(prev => ...)\<close> is applied to its latest value. The functions \<open>onSubmit\<close> and
  \<open>onCollect\<close> are declared in the body of the component, so the \<open>onCollect\<close> that \<open>onSubmit\<close>
  calls is the one of the same render.
\<close>

record 'p app =
  jobs_state :: "'p job list"
  handles_state :: "'p handle list"
  results_state :: "'p handle list"
  autoCollect_state :: bool

text \<open>
  \<open>onBuildJobs\<close>: the three \<open>set\<close> calls follow \<open>buildJobs\<close> and do not happen when it
  throws.
\<close>

definition onBuildJobs :: "jsval \<Rightarrow> jsval \<Rightarrow> jsval \<Rightarrow> jsval \<Rightarrow> 'p \<Rightarrow> 'p app \<Rightarrow> 'p app" where
  "onBuildJobs mode sharedRefs prompts perPromptRefs extraPayload live =
     (case buildJobs mode sharedRefs prompts perPromptRefs extraPayload of
        Inl e \<Rightarrow> live
      | Inr j \<Rightarrow> live\<lparr>jobs_state := j, handles_state := [], results_state := []\<rparr>)"

text \<open>
  \<open>onCollect\<close>: \<open>results\<close> and \<open>jobs\<close> are those of its render; \<open>setResults(aligned)\<close>
  replaces the current results.
\<close>

definition onCollect :: "'p app \<Rightarrow> (nat \<Rightarrow> int) \<Rightarrow> 'p app \<Rightarrow> 'p app" where
  "onCollect render clock live =
     live\<lparr>results_state := aligned (jobs_state render) (results_state render) clock\<rparr>"

text \<open>
  The functional update that each worker of \<open>onSubmit\<close> makes when its job has finished:
  replace the entry with the same \<open>job_id\<close>, or append.
\<close>

definition upsert :: "'p handle list \<Rightarrow> 'p handle \<Rightarrow> 'p handle list" where
  "upsert prev finished =
     (case find (\<lambda>x. job_id x = job_id finished) prev of
        Some exists \<Rightarrow> map (\<lambda>x. if job_id x = job_id finished then finished else x) prev
      | None \<Rightarrow> prev @ [finished])"

text \<open>
  \<open>onSubmit\<close>. \<open>rnd n\<close> and \<open>now n\<close> are the random suffix and the clock reading for the
  handle of the \<open>n\<close>-th job. \<open>finished\<close> is the list of the handles that the workers'
  \<open>simulateRunJob\<close> calls resolved to, in the order in which the pool completed them: each
  is added to the current results as it arrives. When the pool has drained, the handler
  tests the \<open>autoCollect\<close> of its render and calls the \<open>onCollect\<close> of its render.
\<close>

definition onSubmit ::
  "'p app \<Rightarrow> (nat \<Rightarrow> string) \<Rightarrow> (nat \<Rightarrow> int) \<Rightarrow> 'p handle list \<Rightarrow> (nat \<Rightarrow> int) \<Rightarrow> 'p app
     \<Rightarrow> 'p app" where
  "onSubmit render rnd now finished clock live =
     (if jobs_state render = [] then live
      else
        (let queued = map (\<lambda>(n, j). (simulateSubmit j (rnd n) (now n))\<lparr>status := Running\<rparr>)
                        (enumerate 0 (jobs_state render));
             live1 = live\<lparr>handles_state := queued\<rparr>;
             live2 = foldl (\<lambda>l f. l\<lparr>results_state := upsert (results_state l) f\<rparr>) live1 finished
         in if autoCollect_state render then onCollect render clock live2 else live2))"

section \<open>The concurrency pool\<close>

text \<open>
  \<open>runWithConcurrency\<close> is a state machine driven by promise callbacks. Its state is the
  four variables of the source (\<open>q\<close>, \<open>res\<close>, \<open>inFlight\<close> and \<open>i\<close>, here \<open>i_next\<close>) and what
  the run time holds for it:
  \<^item> \<open>running\<close>: the positions in \<open>q\<close> of the items whose worker has been called and
    whose \<open>then\<close> callback has not run yet (the worker invocations in flight);
  \<^item> \<open>finishing\<close>: the number of \<open>finally\<close> callbacks that are due (their \<open>then\<close>
    callback has run);
  \<^item> \<open>resolved\<close>: whether \<open>resolve(res)\<close> has been called, the promise then being
    fulfilled with the array \<open>res\<close>;
  \<^item> \<open>calls\<close>: the arguments of the worker calls so far, in order;
  \<^item> \<open>completed\<close>: the completion history, that is the positions in \<open>q\<close> of the items
    whose \<open>then\<close> callback has run, in the order in which these callbacks ran.

  A worker that always resolves is given by \<open>outcome\<close>: \<open>outcome p\<close> is the value that
  the promise of the call on \<open>q[p]\<close> resolves to. The callback \<open>onProgress\<close> does not
  touch the state of the pool and is left out.
\<close>

record ('t, 'r) pool =
  q :: "'t list"
  res :: "'r list"
  inFlight :: int
  i_next :: nat
  running :: "nat list"
  finishing :: nat
  resolved :: bool
  calls :: "'t list"
  completed :: "nat list"

text \<open>\<open>pump\<close>: the \<open>while\<close> loop that starts workers; it runs without interruption.\<close>

function pump :: "int \<Rightarrow> ('t, 'r) pool \<Rightarrow> ('t, 'r) pool" where
  "pump k s =
     (if inFlight s < k \<and> i_next s < length (q s) then
        pump k (s\<lparr>i_next := Suc (i_next s),
                  inFlight := inFlight s + 1,
                  running := running s @ [i_next s],
                  calls := calls s @ [q s ! i_next s]\<rparr>)
      else s)"
  by pat_completeness auto
termination
  by (relation "measure (\<lambda>(k, s). length (q s) - i_next s)") auto

declare pump.simps [simp del]

text \<open>The state when \<open>runWithConcurrency\<close> has run its synchronous part: the first \<open>pump()\<close>.\<close>

definition runWithConcurrency :: "'t list \<Rightarrow> int \<Rightarrow> ('t, 'r) pool" where
  "runWithConcurrency items k =
     pump k \<lparr>q = items, res = [], inFlight = 0, i_next = 0, running = [], finishing = 0,
             resolved = False, calls = [], completed = []\<rparr>"

text \<open>
  The \<open>then\<close> callback of the \<open>j\<close>-th invocation in flight: \<open>res.push(r)\<close>. The position
  of the item joins the completion history.
\<close>

definition on_then :: "(nat \<Rightarrow> 'r) \<Rightarrow> nat \<Rightarrow> ('t, 'r) pool \<Rightarrow> ('t, 'r) pool" where
  "on_then outcome j s =
     s\<lparr>res := res s @ [outcome (running s ! j)],
       running := take j (running s) @ drop (Suc j) (running s),
       finishing := Suc (finishing s),
       completed := completed s @ [running s ! j]\<rparr>"

text \<open>
  A \<open>finally\<close> callback:
  \<open>inFlight--; res.length === items.length ? resolve(res) : pump()\<close>.
\<close>

definition on_finally :: "'t list \<Rightarrow> int \<Rightarrow> ('t, 'r) pool \<Rightarrow> ('t, 'r) pool" where
  "on_finally items k s =
     (let s1 = s\<lparr>inFlight := inFlight s - 1, finishing := finishing s - 1\<rparr>
      in if length (res s1) = length items then s1\<lparr>resolved := True\<rparr> else pump k s1)"

text \<open>
  One callback runs at a time. Any invocation in flight may be the next to complete, and
  any due \<open>finally\<close> callback may run next: the relation allows every interleaving.
\<close>

inductive pool_step ::
  "(nat \<Rightarrow> 'r) \<Rightarrow> 't list \<Rightarrow> int \<Rightarrow> ('t, 'r) pool \<Rightarrow> ('t, 'r) pool \<Rightarrow> bool"
  for outcome :: "nat \<Rightarrow> 'r" and items :: "'t list" and k :: int where
  then_step: "j < length (running s) \<Longrightarrow> pool_step outcome items k s (on_then outcome j s)"
| finally_step: "0 < finishing s \<Longrightarrow> pool_step outcome items k s (on_finally items k s)"

inductive pool_reach ::
  "(nat \<Rightarrow> 'r) \<Rightarrow> 't list \<Rightarrow> int \<Rightarrow> ('t, 'r) pool \<Rightarrow> bool"
  for outcome :: "nat \<Rightarrow> 'r" and items :: "'t list" and k :: int where
  reach_start: "pool_reach outcome items k (runWithConcurrency items k)"
| reach_step:
    "pool_reach outcome items k s \<Longrightarrow> pool_step outcome items k s s'
       \<Longrightarrow> pool_reach outcome items k s'"

text \<open>The number of callbacks still to run: it bounds the length of every run.\<close>

definition pool_measure :: "'t list \<Rightarrow> ('t, 'r) pool \<Rightarrow> nat" where
  "pool_measure items s = 2 * (length items - length (res s)) + finishing s"

text \<open>
  For the proofs: what holds of the pool in every state that a run reaches. \<open>pool_core\<close>
  is the part that \<open>pump\<close> keeps at each round of its loop: the worker has been called on
  the first \<open>i_next\<close> items, in order; \<open>inFlight\<close> counts the calls whose \<open>finally\<close>
  callback has not run and is at most \<open>k\<close>; \<open>res\<close> holds the results of the completed calls
  in the order of the completion history; every call made is either completed or in flight,
  and not twice.
\<close>

definition pool_core :: "(nat \<Rightarrow> 'r) \<Rightarrow> 't list \<Rightarrow> int \<Rightarrow> ('t, 'r) pool \<Rightarrow> bool" where
  "pool_core outcome items k s \<longleftrightarrow>
     q s = items
   \<and> i_next s \<le> length items
   \<and> calls s = take (i_next s) items
   \<and> inFlight s = int (length (running s)) + int (finishing s)
   \<and> inFlight s \<le> k
   \<and> res s = map outcome (completed s)
   \<and> mset (completed s) + mset (running s) = mset [0..<i_next s]"

definition pool_inv :: "(nat \<Rightarrow> 'r) \<Rightarrow> 't list \<Rightarrow> int \<Rightarrow> ('t, 'r) pool \<Rightarrow> bool" where
  "pool_inv outcome items k s \<longleftrightarrow>
     pool_core outcome items k s
   \<and> (k \<le> inFlight s \<or> i_next s = length items)
   \<and> (resolved s \<longrightarrow> length (res s) = length items)
   \<and> (length (res s) = length items \<longrightarrow> resolved s \<or> 0 < finishing s)"

section \<open>Closed forms of the loops\<close>

lemma forEach_push_eq:
  "forEach_push ps idx rs pl jobs =
     jobs @ map (\<lambda>j. \<lparr>index = idx + j, prompt = ps ! j, refs = rs, payload = pl\<rparr>) [0..<length ps]"
proof (induction ps arbitrary: idx jobs)
  case Nil
  then show ?case by simp
next
  case (Cons p ps)
  have "map (\<lambda>j. \<lparr>index = idx + j, prompt = (p # ps) ! j, refs = rs, payload = pl\<rparr>) [0..<length (p # ps)]
      = \<lparr>index = idx, prompt = p, refs = rs, payload = pl\<rparr> #
        map (\<lambda>j. \<lparr>index = Suc idx + j, prompt = ps ! j, refs = rs, payload = pl\<rparr>) [0..<length ps]"
    by (simp add: upt_conv_Cons map_Suc_upt [symmetric] del: upt_Suc)
  with Cons.IH [of "Suc idx"] show ?case by simp
qed

lemma zip_loop_arr:
  "i \<le> n \<Longrightarrow> n \<le> length ps \<Longrightarrow>
   zip_loop (JArr ps) groups pl n i jobs =
     Inr (jobs @ map (\<lambda>j. \<lparr>index = j, prompt = ps ! j, refs = groups_at groups j, payload = pl\<rparr>) [i..<n])"
proof (induction "n - i" arbitrary: i jobs)
  case 0
  then show ?case by (simp add: zip_loop.simps)
next
  case (Suc d)
  then have lt: "i < n" and d: "d = n - Suc i" by simp_all
  from lt Suc.prems have ips: "i < length ps" by simp
  have "zip_loop (JArr ps) groups pl n i jobs =
        zip_loop (JArr ps) groups pl n (Suc i)
          (jobs @ [\<lparr>index = i, prompt = ps ! i, refs = groups_at groups i, payload = pl\<rparr>])"
    using lt ips by (subst zip_loop.simps) simp
  also have "\<dots> = Inr ((jobs @ [\<lparr>index = i, prompt = ps ! i, refs = groups_at groups i, payload = pl\<rparr>])
        @ map (\<lambda>j. \<lparr>index = j, prompt = ps ! j, refs = groups_at groups j, payload = pl\<rparr>) [Suc i..<n])"
    using Suc.hyps(1) [OF d] lt Suc.prems by simp
  finally show ?case using lt by (simp add: upt_conv_Cons)
qed

lemma cart_inner_arr:
  "g \<le> len \<Longrightarrow> i < length ps \<Longrightarrow>
   cart_inner (JArr ps) i len refs_at pl g (i * len + g, map (cart_job ps len refs_at pl) [0..<i * len + g]) =
     Inr (Suc i * len, map (cart_job ps len refs_at pl) [0..<Suc i * len])"
proof (induction "len - g" arbitrary: g)
  case 0
  then show ?case by (simp add: cart_inner.simps add.commute)
next
  case (Suc d)
  then have lt: "g < len" and d: "d = len - Suc g" by simp_all
  have job: "\<lparr>index = i * len + g, prompt = ps ! i, refs = refs_at g, payload = pl\<rparr>
      = cart_job ps len refs_at pl (i * len + g)"
    using lt by (simp add: cart_job_def)
  have "cart_inner (JArr ps) i len refs_at pl g
          (i * len + g, map (cart_job ps len refs_at pl) [0..<i * len + g]) =
        cart_inner (JArr ps) i len refs_at pl (Suc g)
          (i * len + Suc g, map (cart_job ps len refs_at pl) [0..<i * len + Suc g])"
    using lt Suc.prems(2) by (subst cart_inner.simps) (simp add: job)
  also have "\<dots> = Inr (Suc i * len, map (cart_job ps len refs_at pl) [0..<Suc i * len])"
    using Suc.hyps(1) [OF d] lt Suc.prems(2) by simp
  finally show ?case .
qed

lemma cart_outer_arr:
  "i \<le> length ps \<Longrightarrow>
   cart_outer (JArr ps) len refs_at pl i (i * len, map (cart_job ps len refs_at pl) [0..<i * len]) =
     Inr (map (cart_job ps len refs_at pl) [0..<length ps * len])"
proof (induction "length ps - i" arbitrary: i)
  case 0
  then show ?case by (simp add: cart_outer.simps)
next
  case (Suc d)
  then have lt: "i < length ps" and d: "d = length ps - Suc i" by simp_all
  have "cart_outer (JArr ps) len refs_at pl i (i * len, map (cart_job ps len refs_at pl) [0..<i * len]) =
        cart_outer (JArr ps) len refs_at pl (Suc i)
          (Suc i * len, map (cart_job ps len refs_at pl) [0..<Suc i * len])"
    using lt cart_inner_arr [of 0 len i ps refs_at pl] by (subst cart_outer.simps) simp
  also have "\<dots> = Inr (map (cart_job ps len refs_at pl) [0..<length ps * len])"
    using Suc.hyps(1) [OF d] lt by simp
  finally show ?case .
qed

lemma cart_outer_start:
  "cart_outer (JArr ps) len refs_at pl 0 (0, []) =
     Inr (map (cart_job ps len refs_at pl) [0..<length ps * len])"
  using cart_outer_arr [of 0 ps len refs_at pl] by simp

lemma mode_consts_distinct:
  "ONE_TO_MANY \<noteq> ZIP" "ONE_TO_MANY \<noteq> CARTESIAN" "ZIP \<noteq> CARTESIAN"
  "ZIP \<noteq> ONE_TO_MANY" "CARTESIAN \<noteq> ONE_TO_MANY" "CARTESIAN \<noteq> ZIP"
  by (simp_all add: ONE_TO_MANY_def ZIP_def CARTESIAN_def)

lemma buildJobs_one_to_many_arr:
  "buildJobs ONE_TO_MANY sharedRefs (JArr ps) perPromptRefs pl =
     Inr (map (\<lambda>j. \<lparr>index = j, prompt = ps ! j, refs = JArr (cleanedSharedRefs sharedRefs),
                     payload = pl\<rparr>) [0..<length ps])"
  by (simp add: buildJobs_def Let_def forEach_push_eq)

lemma buildJobs_zip_arr:
  "buildJobs ZIP sharedRefs (JArr ps) perPromptRefs pl =
     Inr (map (\<lambda>j. \<lparr>index = j, prompt = ps ! j,
                     refs = JArr (cleanedPerPrompt perPromptRefs ! j), payload = pl\<rparr>)
            [0..<min (length ps) (length (cleanedPerPrompt perPromptRefs))])"
  by (simp add: buildJobs_def Let_def mode_consts_distinct zip_loop_arr groups_at_def)

lemma buildJobs_cartesian_arr:
  assumes "mode \<noteq> ONE_TO_MANY" "mode \<noteq> ZIP"
  shows "buildJobs mode sharedRefs (JArr ps) perPromptRefs pl =
     (if cleanedPerPrompt perPromptRefs \<noteq> [] then
        Inr (map (cart_job ps (length (cleanedPerPrompt perPromptRefs))
                    (groups_at (cleanedPerPrompt perPromptRefs)) pl)
               [0..<length ps * length (cleanedPerPrompt perPromptRefs)])
      else
        Inr (map (cart_job ps (length (cleanedSharedRefs sharedRefs))
                    (\<lambda>r. JArr [arr_at (cleanedSharedRefs sharedRefs) r]) pl)
               [0..<length ps * length (cleanedSharedRefs sharedRefs)]))"
  using assms by (simp add: buildJobs_def Let_def cart_outer_start)

section \<open>Lists\<close>

lemma map_upt_nth_take:
  "map (\<lambda>j. f (xs ! j)) [0..<min (length xs) n] = map f (take n xs)"
  by (rule nth_equalityI) (simp_all add: min.commute)

lemma concat_replicate_Suc_end:
  "concat (replicate (Suc n) xs) = concat (replicate n xs) @ xs"
  by (induction n) simp_all

lemma refs_cart_jobs:
  "map refs (map (cart_job ps len refs_at pl) [0..<n * len]) =
     concat (replicate n (map refs_at [0..<len]))"
proof (induction n)
  case 0
  then show ?case by simp
next
  case (Suc n)
  have "[0..<Suc n * len] = [0..<n * len] @ [n * len..<n * len + len]"
    using upt_add_eq_append [of 0 "n * len" len] by (simp add: add.commute)
  also have "[n * len..<n * len + len] = map (\<lambda>g. g + n * len) [0..<len]"
    using map_add_upt [of "n * len" len] by (simp add: add.commute)
  finally have split: "[0..<Suc n * len] = [0..<n * len] @ map (\<lambda>g. g + n * len) [0..<len]" .
  have last: "map refs (map (cart_job ps len refs_at pl) (map (\<lambda>g. g + n * len) [0..<len])) =
        map refs_at [0..<len]"
    by (simp add: cart_job_def o_def)
  show ?case
    unfolding split concat_replicate_Suc_end map_append last Suc.IH ..
qed

section \<open>One-to-many\<close>

text \<open>
  Claim C6, as amended. For every prompt list \<open>P\<close> and shared reference list \<open>S\<close>,
  one-to-many returns exactly \<open>length P\<close> jobs, with indices \<open>0, ..., length P - 1\<close> in
  order and the prompts in order, and every job's \<open>refs\<close> is \<open>S\<close> without its falsy
  entries: the same for every job, whatever the length of \<open>P\<close>. It is \<open>S\<close> itself when
  no entry of \<open>S\<close> is falsy.
\<close>

theorem buildJobs_one_to_many:
  "\<exists>jobs. buildJobs ONE_TO_MANY (JArr S) (JArr P) G pl = Inr jobs
     \<and> length jobs = length P
     \<and> map index jobs = [0..<length P]
     \<and> map prompt jobs = P
     \<and> map refs jobs = replicate (length P) (JArr (filter Boolean S))
     \<and> ((\<forall>r\<in>set S. Boolean r) \<longrightarrow> map refs jobs = replicate (length P) (JArr S))"
  by (simp add: buildJobs_one_to_many_arr o_def map_nth map_replicate_const
      cleanedSharedRefs_def toArraySafe_def)

text \<open>The first scenario of the specification: three prompts, two shared references.\<close>

theorem buildJobs_one_to_many_witness:
  "\<exists>jobs. buildJobs ONE_TO_MANY (JArr [JStr ''S1'', JStr ''S2''])
       (JArr [JStr ''p1'', JStr ''p2'', JStr ''p3'']) JUndefined () = Inr jobs
     \<and> length jobs = 3
     \<and> map refs jobs = replicate 3 (JArr [JStr ''S1'', JStr ''S2''])"
  using buildJobs_one_to_many [of "[JStr ''S1'', JStr ''S2'']"
      "[JStr ''p1'', JStr ''p2'', JStr ''p3'']" JUndefined "()"]
  by (auto simp: numeral_3_eq_3)

text \<open>
  As the claim is written (\<open>refs\<close> equal to \<open>S\<close>) it fails for a list with an empty
  string: \<open>filter(Boolean)\<close> drops it.
\<close>

theorem buildJobs_one_to_many_counterexample:
  "buildJobs ONE_TO_MANY (JArr [JStr ''S1'', JStr '''']) (JArr [JStr ''p1'']) JUndefined () =
     Inr [\<lparr>index = 0, prompt = JStr ''p1'', refs = JArr [JStr ''S1''], payload = ()\<rparr>]
   \<and> JArr [JStr ''S1''] \<noteq> JArr [JStr ''S1'', JStr '''']"
  by (simp add: buildJobs_def cleanedSharedRefs_def toArraySafe_def)

section \<open>Zip\<close>

text \<open>
  Claim C5, as amended. For every prompt list \<open>P\<close> and group list \<open>G\<close>, zip returns
  without error exactly \<open>min (length P) (length G)\<close> jobs, job \<open>i\<close> having index \<open>i\<close>,
  the prompt \<open>P[i]\<close> and as its \<open>refs\<close> the group \<open>G[i]\<close> when that is a list, and the
  empty list when it is not. The prompts and the groups beyond the shorter length leave
  no trace.
\<close>

theorem buildJobs_zip:
  "\<exists>jobs. buildJobs ZIP S (JArr P) (JArr G) pl = Inr jobs
     \<and> length jobs = min (length P) (length G)
     \<and> map index jobs = [0..<min (length P) (length G)]
     \<and> map prompt jobs = take (length G) P
     \<and> (\<forall>i<min (length P) (length G).
          refs (jobs ! i) = JArr (toArraySafe (G ! i) [])
        \<and> (\<forall>g. G ! i = JArr g \<longrightarrow> refs (jobs ! i) = G ! i))"
  by (simp add: buildJobs_zip_arr o_def cleanedPerPrompt_def toArraySafe_def
      map_upt_nth_take [where f = "\<lambda>x. x", simplified])

text \<open>The third scenario of the specification: four prompts, two groups.\<close>

theorem buildJobs_zip_witness:
  "\<exists>jobs. buildJobs ZIP JUndefined (JArr [JStr ''p1'', JStr ''p2'', JStr ''p3'', JStr ''p4''])
       (JArr [JArr [JStr ''r1''], JArr [JStr ''r2'']]) () = Inr jobs
     \<and> length jobs = 2
     \<and> refs (jobs ! 1) = JArr [JStr ''r2'']"
  using buildJobs_zip [of JUndefined "[JStr ''p1'', JStr ''p2'', JStr ''p3'', JStr ''p4'']"
      "[JArr [JStr ''r1''], JArr [JStr ''r2'']]" "()"]
  by (auto simp: toArraySafe_def)

text \<open>
  As the claim is written (\<open>refs\<close> equal to \<open>G[i]\<close> for every group list) it fails for
  a group that is \<open>undefined\<close>, which the type of \<open>perPromptRefs\<close> allows: the job gets
  the empty list.
\<close>

theorem buildJobs_zip_counterexample:
  "buildJobs ZIP JUndefined (JArr [JStr ''p1'']) (JArr [JUndefined]) () =
     Inr [\<lparr>index = 0, prompt = JStr ''p1'', refs = JArr [], payload = ()\<rparr>]
   \<and> JArr [] \<noteq> JUndefined"
  by (simp add: buildJobs_def cleanedPerPrompt_def toArraySafe_def ZIP_def ONE_TO_MANY_def
      zip_loop.simps groups_at_def)

section \<open>Cartesian\<close>

lemma cart_job_nth:
  "i < length ps \<Longrightarrow> g < len \<Longrightarrow>
   map (cart_job ps len refs_at pl) [0..<length ps * len] ! (i * len + g) =
     \<lparr>index = i * len + g, prompt = ps ! i, refs = refs_at g, payload = pl\<rparr>"
proof -
  assume i: "i < length ps" and g: "g < len"
  have "i * len + g < Suc i * len" using g by simp
  also have "\<dots> \<le> length ps * len" using i by (simp add: Suc_leI mult_le_mono1 del: mult_Suc)
  finally have "i * len + g < length ps * len" .
  then show ?thesis using g by (simp add: cart_job_def)
qed

text \<open>
  Claim C1, as amended. Let \<open>G'\<close> be the group list with every entry that is not a list
  replaced by the empty list (\<open>cleanedPerPrompt\<close>) and \<open>S'\<close> the shared list without its
  falsy entries (\<open>cleanedSharedRefs\<close>). In cartesian mode the job at position \<open>n\<close> has
  index \<open>n\<close>. If \<open>G'\<close> is not empty there are \<open>length P * length G'\<close> jobs, and the job
  of prompt \<open>i\<close> and group \<open>g\<close> stands at position \<open>i * length G' + g\<close> (prompts outside,
  groups inside) with the whole group as its \<open>refs\<close>, an empty group giving empty \<open>refs\<close>.
  If \<open>G'\<close> is empty there are \<open>length P * length S'\<close> jobs, the job of prompt \<open>i\<close> and
  reference \<open>r\<close> standing at position \<open>i * length S' + r\<close> with the one-element list
  \<open>[S'[r]]\<close> as its \<open>refs\<close>.
\<close>

theorem buildJobs_cartesian:
  "\<exists>jobs. buildJobs CARTESIAN S (JArr P) G pl = Inr jobs
     \<and> map index jobs = [0..<length jobs]
     \<and> (cleanedPerPrompt G \<noteq> [] \<longrightarrow>
           length jobs = length P * length (cleanedPerPrompt G)
         \<and> (\<forall>i<length P. \<forall>g<length (cleanedPerPrompt G).
               prompt (jobs ! (i * length (cleanedPerPrompt G) + g)) = P ! i
             \<and> refs (jobs ! (i * length (cleanedPerPrompt G) + g)) = JArr (cleanedPerPrompt G ! g)))
     \<and> (cleanedPerPrompt G = [] \<longrightarrow>
           length jobs = length P * length (cleanedSharedRefs S)
         \<and> (\<forall>i<length P. \<forall>r<length (cleanedSharedRefs S).
               prompt (jobs ! (i * length (cleanedSharedRefs S) + r)) = P ! i
             \<and> refs (jobs ! (i * length (cleanedSharedRefs S) + r)) = JArr [cleanedSharedRefs S ! r]))"
proof (cases "cleanedPerPrompt G = []")
  case True
  let ?jobs = "map (cart_job P (length (cleanedSharedRefs S))
                 (\<lambda>r. JArr [arr_at (cleanedSharedRefs S) r]) pl)
               [0..<length P * length (cleanedSharedRefs S)]"
  have "buildJobs CARTESIAN S (JArr P) G pl = Inr ?jobs"
    using True by (simp add: buildJobs_cartesian_arr mode_consts_distinct)
  moreover have "map index ?jobs = [0..<length ?jobs]"
    by (simp add: cart_job_def o_def)
  moreover have "length ?jobs = length P * length (cleanedSharedRefs S)" by simp
  moreover have "\<forall>i<length P. \<forall>r<length (cleanedSharedRefs S).
      prompt (?jobs ! (i * length (cleanedSharedRefs S) + r)) = P ! i
    \<and> refs (?jobs ! (i * length (cleanedSharedRefs S) + r)) = JArr [cleanedSharedRefs S ! r]"
    by (simp add: cart_job_nth arr_at_def)
  ultimately show ?thesis using True by blast
next
  case False
  let ?jobs = "map (cart_job P (length (cleanedPerPrompt G)) (groups_at (cleanedPerPrompt G)) pl)
               [0..<length P * length (cleanedPerPrompt G)]"
  have "buildJobs CARTESIAN S (JArr P) G pl = Inr ?jobs"
    using False by (simp add: buildJobs_cartesian_arr mode_consts_distinct)
  moreover have "map index ?jobs = [0..<length ?jobs]"
    by (simp add: cart_job_def o_def)
  moreover have "length ?jobs = length P * length (cleanedPerPrompt G)" by simp
  moreover have "\<forall>i<length P. \<forall>g<length (cleanedPerPrompt G).
      prompt (?jobs ! (i * length (cleanedPerPrompt G) + g)) = P ! i
    \<and> refs (?jobs ! (i * length (cleanedPerPrompt G) + g)) = JArr (cleanedPerPrompt G ! g)"
    by (simp add: cart_job_nth groups_at_def)
  ultimately show ?thesis using False by blast
qed

text \<open>
  As the claim is written (\<open>length P * length S\<close> jobs in the fallback) it fails for a
  shared list with an empty string: one job, not two.
\<close>

theorem buildJobs_cartesian_counterexample:
  "buildJobs CARTESIAN (JArr [JStr ''a'', JStr '''']) (JArr [JStr ''p'']) (JArr []) () =
     Inr [\<lparr>index = 0, prompt = JStr ''p'', refs = JArr [JStr ''a''], payload = ()\<rparr>]
   \<and> length [JStr ''p''] * length [JStr ''a'', JStr ''''] = 2"
  by (simp add: buildJobs_def cleanedSharedRefs_def cleanedPerPrompt_def toArraySafe_def
      CARTESIAN_def ONE_TO_MANY_def ZIP_def cart_outer.simps cart_inner.simps arr_at_def)

text \<open>
  The fourth scenario of the specification (three prompts, the groups \<open>[]\<close>, \<open>[B, C]\<close>,
  \<open>[D]\<close>) and the fallback on two shared references.
\<close>

theorem buildJobs_cartesian_witness:
  "(\<exists>jobs. buildJobs CARTESIAN JUndefined (JArr [JStr ''a'', JStr ''b'', JStr ''c''])
        (JArr [JArr [], JArr [JStr ''B'', JStr ''C''], JArr [JStr ''D'']]) () = Inr jobs
      \<and> length jobs = 9
      \<and> prompt (jobs ! 3) = JStr ''b'' \<and> refs (jobs ! 3) = JArr []
      \<and> prompt (jobs ! 4) = JStr ''b'' \<and> refs (jobs ! 4) = JArr [JStr ''B'', JStr ''C''])
   \<and> (\<exists>jobs. buildJobs CARTESIAN (JArr [JStr ''S1'', JStr ''S2''])
        (JArr [JStr ''p1'', JStr ''p2'', JStr ''p3'']) JUndefined () = Inr jobs
      \<and> length jobs = 6
      \<and> prompt (jobs ! 3) = JStr ''p2'' \<and> refs (jobs ! 3) = JArr [JStr ''S2''])"
proof
  let ?P = "[JStr ''a'', JStr ''b'', JStr ''c'']"
  let ?G = "JArr [JArr [], JArr [JStr ''B'', JStr ''C''], JArr [JStr ''D'']]"
  have G: "cleanedPerPrompt ?G = [[], [JStr ''B'', JStr ''C''], [JStr ''D'']]"
    by (simp add: cleanedPerPrompt_def toArraySafe_def)
  obtain jobs where run: "buildJobs CARTESIAN JUndefined (JArr ?P) ?G () = Inr jobs"
    and len: "length jobs = length ?P * length (cleanedPerPrompt ?G)"
    and at: "\<forall>i<length ?P. \<forall>g<length (cleanedPerPrompt ?G).
               prompt (jobs ! (i * length (cleanedPerPrompt ?G) + g)) = ?P ! i
             \<and> refs (jobs ! (i * length (cleanedPerPrompt ?G) + g)) = JArr (cleanedPerPrompt ?G ! g)"
    using buildJobs_cartesian [of JUndefined ?P ?G "()"] by (auto simp: G)
  have "prompt (jobs ! (1 * 3 + 0)) = JStr ''b'' \<and> refs (jobs ! (1 * 3 + 0)) = JArr []"
    using at [rule_format, of 1 0] by (simp add: G eval_nat_numeral)
  moreover have "prompt (jobs ! (1 * 3 + 1)) = JStr ''b''
      \<and> refs (jobs ! (1 * 3 + 1)) = JArr [JStr ''B'', JStr ''C'']"
    using at [rule_format, of 1 1] by (simp add: G eval_nat_numeral)
  ultimately show "\<exists>jobs. buildJobs CARTESIAN JUndefined (JArr ?P) ?G () = Inr jobs
      \<and> length jobs = 9
      \<and> prompt (jobs ! 3) = JStr ''b'' \<and> refs (jobs ! 3) = JArr []
      \<and> prompt (jobs ! 4) = JStr ''b'' \<and> refs (jobs ! 4) = JArr [JStr ''B'', JStr ''C'']"
    using run len by (simp add: G)
next
  let ?P = "[JStr ''p1'', JStr ''p2'', JStr ''p3'']"
  let ?S = "JArr [JStr ''S1'', JStr ''S2'']"
  have G: "cleanedPerPrompt JUndefined = []"
    by (simp add: cleanedPerPrompt_def toArraySafe_def)
  have S: "cleanedSharedRefs ?S = [JStr ''S1'', JStr ''S2'']"
    by (simp add: cleanedSharedRefs_def toArraySafe_def)
  obtain jobs where run: "buildJobs CARTESIAN ?S (JArr ?P) JUndefined () = Inr jobs"
    and len: "length jobs = length ?P * length (cleanedSharedRefs ?S)"
    and at: "\<forall>i<length ?P. \<forall>r<length (cleanedSharedRefs ?S).
               prompt (jobs ! (i * length (cleanedSharedRefs ?S) + r)) = ?P ! i
             \<and> refs (jobs ! (i * length (cleanedSharedRefs ?S) + r)) = JArr [cleanedSharedRefs ?S ! r]"
    using buildJobs_cartesian [of ?S ?P JUndefined "()"] by (auto simp: G)
  have "prompt (jobs ! (1 * 2 + 1)) = JStr ''p2'' \<and> refs (jobs ! (1 * 2 + 1)) = JArr [JStr ''S2'']"
    using at [rule_format, of 1 1] by (simp add: S eval_nat_numeral)
  then show "\<exists>jobs. buildJobs CARTESIAN ?S (JArr ?P) JUndefined () = Inr jobs
      \<and> length jobs = 6
      \<and> prompt (jobs ! 3) = JStr ''p2'' \<and> refs (jobs ! 3) = JArr [JStr ''S2'']"
    using run len by (simp add: S)
qed

section \<open>Empty prompt lists and other mode values\<close>




section \<open>Malformed inputs\<close>

lemma cleaned_idem:
  "cleanedSharedRefs (JArr (toArraySafe S [])) = cleanedSharedRefs S"
  "cleanedPerPrompt (JArr (map (\<lambda>g. JArr (toArraySafe g [])) (toArraySafe G []))) =
     cleanedPerPrompt G"
  by (simp_all add: cleanedSharedRefs_def cleanedPerPrompt_def toArraySafe_def o_def)

text \<open>
  Claim C7, as amended. When \<open>prompts\<close> is a list, \<open>buildJobs\<close> returns a job list and
  does not throw, for every mode value and every value of the shared references and of the
  groups. These two are normalised first: the result is the one for the normalised
  values, a value that is not a list counting as the empty list. \<open>prompts\<close> itself is not
  normalised: when it is \<open>undefined\<close> or \<open>null\<close>, \<open>buildJobs\<close> raises a \<open>TypeError\<close>, for
  every mode value and whatever the other arguments are. (Nothing is said of the other
  values of \<open>prompts\<close> that are not lists.)
\<close>

theorem buildJobs_total_on_prompt_lists:
  "(\<exists>jobs. buildJobs mode S (JArr P) G pl = Inr jobs)
   \<and> buildJobs mode S prompts G pl =
       buildJobs mode (JArr (toArraySafe S [])) prompts
         (JArr (map (\<lambda>g. JArr (toArraySafe g [])) (toArraySafe G []))) pl
   \<and> ((\<forall>xs. S \<noteq> JArr xs) \<longrightarrow> toArraySafe S [] = [])
   \<and> buildJobs mode S JUndefined G pl = Inl TypeError
   \<and> buildJobs mode S JNull G pl = Inl TypeError"
proof (intro conjI)
  show "\<exists>jobs. buildJobs mode S (JArr P) G pl = Inr jobs"
  proof (cases "mode = ONE_TO_MANY \<or> mode = ZIP")
    case True
    then show ?thesis
      by (auto simp: buildJobs_one_to_many_arr buildJobs_zip_arr)
  next
    case False
    then show ?thesis by (simp add: buildJobs_cartesian_arr)
  qed
  show "buildJobs mode S prompts G pl =
       buildJobs mode (JArr (toArraySafe S [])) prompts
         (JArr (map (\<lambda>g. JArr (toArraySafe g [])) (toArraySafe G []))) pl"
    unfolding buildJobs_def cleaned_idem ..
  show "(\<forall>xs. S \<noteq> JArr xs) \<longrightarrow> toArraySafe S [] = []"
    by (cases S) (simp_all add: toArraySafe_def)
  show "buildJobs mode S JUndefined G pl = Inl TypeError"
    by (simp add: buildJobs_def Let_def cart_outer.simps)
  show "buildJobs mode S JNull G pl = Inl TypeError"
    by (simp add: buildJobs_def Let_def cart_outer.simps)
qed

text \<open>
  A number as shared references and \<open>null\<close> as a group, in zip mode; \<open>undefined\<close> and
  \<open>null\<close> as \<open>prompts\<close>.
\<close>

theorem buildJobs_total_on_prompt_lists_witness:
  "(\<exists>jobs. buildJobs ZIP (JNum 5) (JArr [JStr ''p'']) (JArr [JNull]) () = Inr jobs)
   \<and> buildJobs ZIP (JNum 5) (JArr [JStr ''p'']) (JArr [JNull]) () =
       buildJobs ZIP (JArr []) (JArr [JStr ''p'']) (JArr [JArr []]) ()
   \<and> toArraySafe (JNum 5) [] = []
   \<and> buildJobs ZIP (JNum 5) JUndefined (JArr [JNull]) () = Inl TypeError
   \<and> buildJobs ZIP (JNum 5) JNull (JArr [JNull]) () = Inl TypeError"
  using buildJobs_total_on_prompt_lists [of ZIP "JNum 5" "[JStr ''p'']" "JArr [JNull]" "()"
      "JArr [JStr ''p'']"]
  by (auto simp: toArraySafe_def)

text \<open>
  As the claim is written (no exception for any input, a non-list \<open>prompts\<close> included) it
  fails: \<open>prompts = undefined\<close> raises a \<open>TypeError\<close> in each of the three modes.
\<close>

theorem buildJobs_throws_counterexample:
  "buildJobs ONE_TO_MANY (JArr []) JUndefined (JArr []) () = Inl TypeError
   \<and> buildJobs ZIP (JArr []) JUndefined (JArr []) () = Inl TypeError
   \<and> buildJobs CARTESIAN (JArr []) JUndefined (JArr []) () = Inl TypeError"
  by (simp add: buildJobs_def cleanedSharedRefs_def cleanedPerPrompt_def toArraySafe_def
      CARTESIAN_def ONE_TO_MANY_def ZIP_def cart_outer.simps)

section \<open>Which references are dropped\<close>

lemma map_groups_at:
  "map (groups_at gs) [0..<length gs] = map JArr gs"
  by (rule nth_equalityI) (simp_all add: groups_at_def)

lemma map_arr_at:
  "map (\<lambda>r. JArr [arr_at xs r]) [0..<length xs] = map (\<lambda>x. JArr [x]) xs"
  by (rule nth_equalityI) (simp_all add: arr_at_def)

lemma map_refs_zip_jobs:
  "map refs (map (\<lambda>j. \<lparr>index = j, prompt = ps ! j, refs = JArr (gs ! j), payload = pl\<rparr>)
       [0..<min (length ps) (length gs)]) = map JArr (take (length ps) gs)"
  by (rule nth_equalityI) (simp_all add: min.commute)

text \<open>
  Claim C10. In zip mode and in cartesian mode with groups the \<open>refs\<close> of the jobs are
  the supplied groups as they are, a group that is a list being kept with every element
  (\<open>toArraySafe\<close> returns it unchanged) and only a group that is not a list becoming the
  empty list. In one-to-many mode and in the cartesian fallback the \<open>refs\<close> are built from
  the shared list without its falsy entries.
\<close>

theorem buildJobs_refs_verbatim_or_filtered:
  "(\<exists>jobs. buildJobs ZIP S (JArr P) (JArr G) pl = Inr jobs
      \<and> map refs jobs = map (\<lambda>g. JArr (toArraySafe g [])) (take (length P) G))
   \<and> (G \<noteq> [] \<longrightarrow>
        (\<exists>jobs. buildJobs CARTESIAN S (JArr P) (JArr G) pl = Inr jobs
           \<and> map refs jobs =
               concat (replicate (length P) (map (\<lambda>g. JArr (toArraySafe g [])) G))))
   \<and> toArraySafe (JArr g) [] = g
   \<and> ((\<forall>xs. x \<noteq> JArr xs) \<longrightarrow> toArraySafe x [] = [])
   \<and> (\<exists>jobs. buildJobs ONE_TO_MANY (JArr Sh) (JArr P) G' pl = Inr jobs
        \<and> map refs jobs = replicate (length P) (JArr (filter Boolean Sh)))
   \<and> (cleanedPerPrompt G' = [] \<longrightarrow>
        (\<exists>jobs. buildJobs CARTESIAN (JArr Sh) (JArr P) G' pl = Inr jobs
           \<and> map refs jobs =
               concat (replicate (length P) (map (\<lambda>r. JArr [r]) (filter Boolean Sh)))))"
proof (intro conjI impI)
  have G: "cleanedPerPrompt (JArr G) = map (\<lambda>g. toArraySafe g []) G"
    by (simp add: cleanedPerPrompt_def toArraySafe_def)
  have Sh: "cleanedSharedRefs (JArr Sh) = filter Boolean Sh"
    by (simp add: cleanedSharedRefs_def toArraySafe_def)
  show "\<exists>jobs. buildJobs ZIP S (JArr P) (JArr G) pl = Inr jobs
      \<and> map refs jobs = map (\<lambda>g. JArr (toArraySafe g [])) (take (length P) G)"
    using map_refs_zip_jobs [of P "map (\<lambda>g. toArraySafe g []) G" pl]
    by (simp add: buildJobs_zip_arr G take_map o_def)
  show "\<exists>jobs. buildJobs CARTESIAN S (JArr P) (JArr G) pl = Inr jobs
           \<and> map refs jobs =
               concat (replicate (length P) (map (\<lambda>g. JArr (toArraySafe g [])) G))"
    if "G \<noteq> []"
    using that map_groups_at [of "map (\<lambda>g. toArraySafe g []) G"]
      refs_cart_jobs [of P "length G" "groups_at (map (\<lambda>g. toArraySafe g []) G)" pl "length P"]
    by (simp add: buildJobs_cartesian_arr mode_consts_distinct G o_def)
  show "toArraySafe (JArr g) [] = g" by (simp add: toArraySafe_def)
  show "toArraySafe x [] = []" if "\<forall>xs. x \<noteq> JArr xs"
    using that by (cases x) (simp_all add: toArraySafe_def)
  show "\<exists>jobs. buildJobs ONE_TO_MANY (JArr Sh) (JArr P) G' pl = Inr jobs
        \<and> map refs jobs = replicate (length P) (JArr (filter Boolean Sh))"
    by (simp add: buildJobs_one_to_many_arr Sh o_def map_replicate_const)
  show "\<exists>jobs. buildJobs CARTESIAN (JArr Sh) (JArr P) G' pl = Inr jobs
           \<and> map refs jobs =
               concat (replicate (length P) (map (\<lambda>r. JArr [r]) (filter Boolean Sh)))"
    if "cleanedPerPrompt G' = []"
    using that map_arr_at [of "filter Boolean Sh"]
      refs_cart_jobs [of P "length (filter Boolean Sh)"
        "\<lambda>r. JArr [arr_at (filter Boolean Sh) r]" pl "length P"]
    by (simp add: buildJobs_cartesian_arr mode_consts_distinct Sh o_def)
qed

text \<open>
  An empty string inside a group stays, in zip and in cartesian mode; inside the shared
  list it is dropped, in one-to-many mode and in the fallback.
\<close>

theorem buildJobs_refs_verbatim_or_filtered_witness:
  "(\<exists>jobs. buildJobs ZIP JUndefined (JArr [JStr ''p'']) (JArr [JArr [JStr '''', JStr ''A'']]) ()
        = Inr jobs \<and> map refs jobs = [JArr [JStr '''', JStr ''A'']])
   \<and> (\<exists>jobs. buildJobs CARTESIAN JUndefined (JArr [JStr ''p''])
        (JArr [JArr [JStr '''', JStr ''A''], JUndefined]) () = Inr jobs
        \<and> map refs jobs = [JArr [JStr '''', JStr ''A''], JArr []])
   \<and> toArraySafe JUndefined [] = []
   \<and> (\<exists>jobs. buildJobs ONE_TO_MANY (JArr [JStr '''', JStr ''A'']) (JArr [JStr ''p'']) JUndefined ()
        = Inr jobs \<and> map refs jobs = [JArr [JStr ''A'']])
   \<and> (\<exists>jobs. buildJobs CARTESIAN (JArr [JStr '''', JStr ''A'']) (JArr [JStr ''p'']) JUndefined ()
        = Inr jobs \<and> map refs jobs = [JArr [JStr ''A'']])"
proof -
  have G': "cleanedPerPrompt JUndefined = []"
    by (simp add: cleanedPerPrompt_def toArraySafe_def)
  show ?thesis
    using buildJobs_refs_verbatim_or_filtered [of JUndefined "[JStr ''p'']"
        "[JArr [JStr '''', JStr ''A'']]" "()" "[]" JUndefined "[JStr '''', JStr ''A'']" JUndefined]
      buildJobs_refs_verbatim_or_filtered [of JUndefined "[JStr ''p'']"
        "[JArr [JStr '''', JStr ''A''], JUndefined]" "()" "[]" JUndefined "[JStr '''', JStr ''A'']"
        JUndefined]
    by (simp add: G' toArraySafe_def)
qed

section \<open>Decimal numerals\<close>

lemma digit_char_inj:
  "a < 10 \<Longrightarrow> b < 10 \<Longrightarrow> digit_char a = digit_char b \<Longrightarrow> a = b"
proof -
  assume "a < 10" "b < 10" "digit_char a = digit_char b"
  moreover have "distinct ''0123456789''" by simp
  ultimately show "a = b"
    by (simp add: digit_char_def nth_eq_iff_index_eq)
qed

lemma string_of_nat_snoc:
  "\<exists>ds. string_of_nat n = ds @ [digit_char (n mod 10)]
     \<and> (n < 10 \<longrightarrow> ds = []) \<and> (\<not> n < 10 \<longrightarrow> ds = string_of_nat (n div 10))"
  by (subst string_of_nat.simps) simp

lemma string_of_nat_not_Nil: "string_of_nat n \<noteq> []"
  using string_of_nat_snoc [of n] by auto

lemma string_of_nat_inj: "string_of_nat m = string_of_nat n \<Longrightarrow> m = n"
proof (induction m arbitrary: n rule: less_induct)
  case (less m)
  obtain ds where m: "string_of_nat m = ds @ [digit_char (m mod 10)]"
    and ds: "m < 10 \<longrightarrow> ds = []" "\<not> m < 10 \<longrightarrow> ds = string_of_nat (m div 10)"
    using string_of_nat_snoc [of m] by blast
  obtain es where n: "string_of_nat n = es @ [digit_char (n mod 10)]"
    and es: "n < 10 \<longrightarrow> es = []" "\<not> n < 10 \<longrightarrow> es = string_of_nat (n div 10)"
    using string_of_nat_snoc [of n] by blast
  from less.prems m n have eq: "ds = es" and dig: "digit_char (m mod 10) = digit_char (n mod 10)"
    by simp_all
  have mod: "m mod 10 = n mod 10"
    using dig by (intro digit_char_inj) simp_all
  have div: "m div 10 = n div 10"
  proof (cases "m < 10")
    case True
    then have "es = []" using ds eq by simp
    then have "n < 10" using es string_of_nat_not_Nil [of "n div 10"] by auto
    with True show ?thesis by simp
  next
    case False
    then have dsm: "ds = string_of_nat (m div 10)" using ds by simp
    then have "es \<noteq> []" using eq string_of_nat_not_Nil [of "m div 10"] by simp
    then have "\<not> n < 10" using es by auto
    then have "es = string_of_nat (n div 10)" using es by simp
    with dsm eq have "string_of_nat (m div 10) = string_of_nat (n div 10)" by simp
    moreover have "m div 10 < m" using False by simp
    ultimately show ?thesis using less.IH by blast
  qed
  show ?case
    using mod div by (metis div_mult_mod_eq)
qed

lemma string_of_nat_12: "string_of_nat 12 = ''12''"
  by (simp add: string_of_nat.simps digit_char_def)

section \<open>The job runner\<close>

text \<open>
  Claim C8. For every handle of the store, every latency range and every failure rate
  (those in \<open>[0, 1]\<close> included), \<open>simulateRunJob\<close> resolves, and to a new object: every
  object of the store, the input handle among them, is what it was. The new handle copies
  \<open>job_id\<close>, \<open>job\<close> and \<open>submit_ts\<close>, has \<open>finish_ts\<close> set, and is in a terminal state:
  failed, with the fixed message \<open>Simulated error\<close>, exactly when the second random draw
  is below the failure rate, and succeeded otherwise, with the result placeholder
  \<open>OK:\<close> followed by the decimal index of the job, which depends on nothing else.
\<close>

theorem simulateRunJob_outcome:
  assumes "h < length store"
  shows "\<exists>out. simulateRunJob store h (lo, hi) failRate rnd1 rnd2 now = Some out
     \<and> (\<forall>a<length store. store_after out ! a = store ! a)
     \<and> length (store_after out) = Suc (length store)
     \<and> resolved_to out = length store
     \<and> resolved_to out \<noteq> h
     \<and> job_id (store_after out ! resolved_to out) = job_id (store ! h)
     \<and> job (store_after out ! resolved_to out) = job (store ! h)
     \<and> submit_ts (store_after out ! resolved_to out) = submit_ts (store ! h)
     \<and> finish_ts (store_after out ! resolved_to out) = Some now
     \<and> (status (store_after out ! resolved_to out) = Failed) = (rnd2 < failRate)
     \<and> (status (store_after out ! resolved_to out) = Succeeded) = (\<not> rnd2 < failRate)
     \<and> (rnd2 < failRate \<longrightarrow>
           error (store_after out ! resolved_to out) = Some ''Simulated error''
         \<and> result_placeholder (store_after out ! resolved_to out) = result_placeholder (store ! h))
     \<and> (\<not> rnd2 < failRate \<longrightarrow>
           result_placeholder (store_after out ! resolved_to out) =
             Some (''OK:'' @ string_of_nat (index (job (store ! h))))
         \<and> error (store_after out ! resolved_to out) = error (store ! h))"
  using assms by (simp add: simulateRunJob_def Let_def nth_append)

text \<open>
  A running handle of the job with index 12, at the default failure rate 0.06: the draw
  0.5 succeeds with \<open>OK:12\<close>, the draw 0.01 fails.
\<close>

theorem simulateRunJob_outcome_witness:
  "(\<exists>out. simulateRunJob
        [simulateSubmit \<lparr>index = 12, prompt = JStr ''p'', refs = JArr [], payload = ()\<rparr> ''ab12cd34'' 1000
           \<lparr>status := Running\<rparr>] 0 (300, 900) (6 / 100) (1 / 2) (1 / 2) 2000 = Some out
      \<and> status (store_after out ! 1) = Succeeded
      \<and> result_placeholder (store_after out ! 1) = Some ''OK:12''
      \<and> finish_ts (store_after out ! 1) = Some 2000
      \<and> status (store_after out ! 0) = Running)
   \<and> (\<exists>out. simulateRunJob
        [simulateSubmit \<lparr>index = 12, prompt = JStr ''p'', refs = JArr [], payload = ()\<rparr> ''ab12cd34'' 1000
           \<lparr>status := Running\<rparr>] 0 (300, 900) (6 / 100) (1 / 2) (1 / 100) 2000 = Some out
      \<and> status (store_after out ! 1) = Failed
      \<and> error (store_after out ! 1) = Some ''Simulated error''
      \<and> finish_ts (store_after out ! 1) = Some 2000
      \<and> status (store_after out ! 0) = Running)"
proof -
  let ?h = "simulateSubmit \<lparr>index = 12, prompt = JStr ''p'', refs = JArr [], payload = ()\<rparr>
              ''ab12cd34'' 1000 \<lparr>status := Running\<rparr>"
  have len: "0 < length [?h]" by simp
  show ?thesis
    using simulateRunJob_outcome [OF len, of 300 900 "6 / 100" "1 / 2" "1 / 2" 2000]
      simulateRunJob_outcome [OF len, of 300 900 "6 / 100" "1 / 2" "1 / 100" 2000]
    by (auto simp: simulateSubmit_def string_of_nat_12)
qed

section \<open>The byIndex table\<close>

lemma byIndex_snoc:
  "byIndex (rs @ [r]) = (byIndex rs)(index (job r) \<mapsto> r)"
  by (simp add: byIndex_def)

lemma byIndex_last:
  "byIndex rs n =
     (case filter (\<lambda>r. index (job r) = n) rs of [] \<Rightarrow> None | x # xs \<Rightarrow> Some (last (x # xs)))"
proof (induction rs rule: rev_induct)
  case Nil
  then show ?case by (simp add: byIndex_def)
next
  case (snoc r rs)
  then show ?case
    by (cases "filter (\<lambda>r. index (job r) = n) rs") (simp_all add: byIndex_snoc)
qed

lemma aligned_nth:
  "k < length jobs \<Longrightarrow>
   aligned jobs results clock ! k =
     (case byIndex results (index (jobs ! k)) of
        Some r \<Rightarrow> r | None \<Rightarrow> pending (jobs ! k) (clock k))"
  by (simp add: aligned_def nth_enumerate_eq)

lemma aligned_index:
  "k < length jobs \<Longrightarrow> index (job (aligned jobs results clock ! k)) = index (jobs ! k)"
proof -
  assume k: "k < length jobs"
  show ?thesis
  proof (cases "filter (\<lambda>r. index (job r) = index (jobs ! k)) results")
    case Nil
    then show ?thesis using k by (simp add: aligned_nth byIndex_last pending_def)
  next
    case (Cons x xs)
    then have "last (x # xs) \<in> set (filter (\<lambda>r. index (job r) = index (jobs ! k)) results)"
      by (metis last_in_set list.distinct(1))
    then have "index (job (last (x # xs))) = index (jobs ! k)" by simp
    then show ?thesis using k Cons by (simp add: aligned_nth byIndex_last)
  qed
qed

lemma filter_index_distinct:
  "distinct (map (\<lambda>r. index (job r)) rs) \<Longrightarrow>
   filter (\<lambda>r. index (job r) = n) rs = [] \<or> (\<exists>x. filter (\<lambda>r. index (job r) = n) rs = [x])"
proof (induction rs)
  case Nil
  then show ?case by simp
next
  case (Cons r rs)
  then show ?case by (auto simp: filter_empty_conv image_iff)
qed

lemma byIndex_perm:
  assumes "distinct (map (\<lambda>r. index (job r)) rs)" "mset rs' = mset rs"
  shows "byIndex rs' = byIndex rs"
proof
  fix n
  let ?f = "filter (\<lambda>r. index (job r) = n)"
  have d': "distinct (map (\<lambda>r. index (job r)) rs')"
    using assms by (metis mset_map mset_eq_imp_distinct_iff)
  have m: "mset (?f rs') = mset (?f rs)" using assms(2) by (metis mset_filter)
  consider "?f rs = []" | x where "?f rs = [x]"
    using filter_index_distinct [OF assms(1), of n] by blast
  then show "byIndex rs' n = byIndex rs n"
  proof cases
    case 1
    then have "?f rs' = []" using m by simp
    with 1 show ?thesis by (simp add: byIndex_last)
  next
    case 2
    then have "mset (?f rs') = mset [x]" using m by simp
    then have "?f rs' = [x]" by (metis mset.simps(1) mset.simps(2) mset_single_iff)
    with 2 show ?thesis by (simp add: byIndex_last)
  qed
qed

section \<open>Indices of a build\<close>

lemma zip_loop_index:
  "map index jobs = [0..<i] \<Longrightarrow> zip_loop prompts groups pl n i jobs = Inr jobs' \<Longrightarrow>
   map index jobs' = [0..<length jobs']"
proof (induction prompts groups pl n i jobs rule: zip_loop.induct)
  case (1 prompts groups pl n i jobs)
  have len: "length jobs = i" using "1.prems"(1) by (metis length_map length_upt diff_zero)
  show ?case
  proof (cases "i < n")
    case False
    then have "jobs' = jobs" using "1.prems"(2) by (simp add: zip_loop.simps)
    then show ?thesis using "1.prems"(1) len by simp
  next
    case True
    show ?thesis
    proof (cases "js_index prompts i")
      case (Inl e)
      then show ?thesis using True "1.prems"(2) by (simp add: zip_loop.simps)
    next
      case (Inr p)
      let ?jobs = "jobs @ [\<lparr>index = i, prompt = p, refs = groups_at groups i, payload = pl\<rparr>]"
      have "zip_loop prompts groups pl n (Suc i) ?jobs = Inr jobs'"
        using True Inr "1.prems"(2) by (subst (asm) zip_loop.simps) simp
      moreover have "map index ?jobs = [0..<Suc i]" using "1.prems"(1) by simp
      ultimately show ?thesis using "1.IH" [OF True Inr] by blast
    qed
  qed
qed

lemma cart_inner_index:
  "map index (snd st) = [0..<fst st] \<Longrightarrow> cart_inner prompts i len refs_at pl g st = Inr st' \<Longrightarrow>
   map index (snd st') = [0..<fst st']"
proof (induction prompts i len refs_at pl g st rule: cart_inner.induct)
  case (1 prompts i len refs_at pl g st)
  show ?case
  proof (cases "g < len")
    case False
    then have "st' = st" using "1.prems"(2) by (simp add: cart_inner.simps)
    then show ?thesis using "1.prems"(1) by simp
  next
    case True
    show ?thesis
    proof (cases "js_index prompts i")
      case (Inl e)
      then show ?thesis using True "1.prems"(2) by (simp add: cart_inner.simps)
    next
      case (Inr p)
      let ?st = "(Suc (fst st),
                  snd st @ [\<lparr>index = fst st, prompt = p, refs = refs_at g, payload = pl\<rparr>])"
      have "cart_inner prompts i len refs_at pl (Suc g) ?st = Inr st'"
        using True Inr "1.prems"(2) by (subst (asm) cart_inner.simps) simp
      moreover have "map index (snd ?st) = [0..<fst ?st]" using "1.prems"(1) by simp
      ultimately show ?thesis using "1.IH" [OF True Inr] by blast
    qed
  qed
qed

lemma cart_outer_index:
  "map index (snd st) = [0..<fst st] \<Longrightarrow> cart_outer prompts len refs_at pl i st = Inr jobs' \<Longrightarrow>
   map index jobs' = [0..<length jobs']"
proof (induction prompts len refs_at pl i st rule: cart_outer.induct)
  case (1 prompts len refs_at pl i st)
  have len: "length (snd st) = fst st"
    using "1.prems"(1) by (metis length_map length_upt diff_zero)
  show ?case
  proof (cases "js_length prompts")
    case (Inl e)
    then show ?thesis using "1.prems"(2) by (simp add: cart_outer.simps)
  next
    case (Inr a)
    show ?thesis
    proof (cases a)
      case None
      then have "jobs' = snd st" using Inr "1.prems"(2) by (simp add: cart_outer.simps)
      then show ?thesis using "1.prems"(1) len by simp
    next
      case (Some n)
      show ?thesis
      proof (cases "i < n")
        case False
        then have "jobs' = snd st"
          using Inr Some "1.prems"(2) by (simp add: cart_outer.simps)
        then show ?thesis using "1.prems"(1) len by simp
      next
        case True
        show ?thesis
        proof (cases "cart_inner prompts i len refs_at pl 0 st")
          case (Inl e)
          then show ?thesis
            using Inr Some True "1.prems"(2) by (simp add: cart_outer.simps)
        next
          case inner: (Inr st1)
          have "cart_outer prompts len refs_at pl (Suc i) st1 = Inr jobs'"
            using Inr Some True inner "1.prems"(2) by (subst (asm) cart_outer.simps) simp
          moreover have "map index (snd st1) = [0..<fst st1]"
            using cart_inner_index [OF "1.prems"(1) inner] .
          ultimately show ?thesis using "1.IH" [OF Inr Some True inner] by blast
        qed
      qed
    qed
  qed
qed

lemma buildJobs_index:
  assumes "buildJobs mode S prompts G pl = Inr jobs"
  shows "map index jobs = [0..<length jobs]"
proof -
  consider "mode = ONE_TO_MANY" | "mode \<noteq> ONE_TO_MANY" "mode = ZIP"
    | "mode \<noteq> ONE_TO_MANY" "mode \<noteq> ZIP" by blast
  then show ?thesis
  proof cases
    case 1
    then obtain ps where "prompts = JArr ps"
      using assms by (cases prompts) (simp_all add: buildJobs_def)
    then show ?thesis
      using assms 1 by (auto simp: buildJobs_one_to_many_arr o_def)
  next
    case 2
    show ?thesis
    proof (cases "js_length prompts")
      case (Inl e)
      then show ?thesis using assms 2 by (simp add: buildJobs_def Let_def)
    next
      case (Inr a)
      show ?thesis
      proof (cases a)
        case None
        then show ?thesis using assms 2 Inr by (auto simp: buildJobs_def Let_def)
      next
        case (Some m)
        then have "zip_loop prompts (cleanedPerPrompt G) pl
            (min m (length (cleanedPerPrompt G))) 0 [] = Inr jobs"
          using assms 2 Inr by (simp add: buildJobs_def Let_def)
        then show ?thesis using zip_loop_index [of "[]" 0] by simp
      qed
    qed
  next
    case 3
    have init: "map index (snd (0::nat, []::'a job list)) = [0..<fst (0::nat, []::'a job list)]"
      by simp
    show ?thesis
      using assms 3 cart_outer_index [OF init]
      by (simp add: buildJobs_def Let_def split: if_splits)
  qed
qed

section \<open>The aligned array\<close>

text \<open>
  What \<open>aligned\<close> is, for the job list and the result list it is computed from: as long
  as the job list and with its job indices, position by position; at each position the
  last handle of the result list with that job index, and a placeholder where there is
  none; the same for every rearrangement of a result list with one handle per index.
\<close>

lemma aligned_spec:
  "length (aligned jobs results clock) = length jobs
   \<and> map (\<lambda>h. index (job h)) (aligned jobs results clock) = map index jobs
   \<and> (buildJobs mode S prompts G pl = Inr jobs \<longrightarrow>
        map (\<lambda>h. index (job h)) (aligned jobs results clock) = [0..<length jobs])
   \<and> (\<forall>k<length jobs.
        aligned jobs results clock ! k =
          (case filter (\<lambda>r. index (job r) = index (jobs ! k)) results of
             [] \<Rightarrow> pending (jobs ! k) (clock k)
           | x # xs \<Rightarrow> last (x # xs)))
   \<and> status (pending j t) = Queued
   \<and> job (pending j t) = j
   \<and> job_id (pending j t) = ''pending_'' @ string_of_nat (index j)
   \<and> finish_ts (pending j t) = None
   \<and> result_placeholder (pending j t) = None
   \<and> error (pending j t) = None
   \<and> job_id (pending j t) \<noteq> job_id (simulateSubmit j' rnd t')
   \<and> (job_id (pending j t) = job_id (pending j' t') \<longrightarrow> index j = index j')
   \<and> (distinct (map (\<lambda>r. index (job r)) results) \<longrightarrow> mset results' = mset results \<longrightarrow>
        aligned jobs results' clock = aligned jobs results clock)"
proof (intro conjI impI allI)
  show len: "length (aligned jobs results clock) = length jobs"
    by (simp add: aligned_def)
  show idx: "map (\<lambda>h. index (job h)) (aligned jobs results clock) = map index jobs"
    by (rule nth_equalityI) (simp_all add: len aligned_index)
  show "map (\<lambda>h. index (job h)) (aligned jobs results clock) = [0..<length jobs]"
    if "buildJobs mode S prompts G pl = Inr jobs"
    using idx buildJobs_index [OF that] by simp
  show "aligned jobs results clock ! k =
          (case filter (\<lambda>r. index (job r) = index (jobs ! k)) results of
             [] \<Rightarrow> pending (jobs ! k) (clock k)
           | x # xs \<Rightarrow> last (x # xs))" if "k < length jobs" for k
    using that by (simp add: aligned_nth byIndex_last split: list.splits)
  show "job_id (pending j t) \<noteq> job_id (simulateSubmit j' rnd t')"
    by (simp add: pending_def simulateSubmit_def uid_def)
  show "index j = index j'" if "job_id (pending j t) = job_id (pending j' t')"
    using that by (simp add: pending_def string_of_nat_inj)
  show "aligned jobs results' clock = aligned jobs results clock"
    if "distinct (map (\<lambda>r. index (job r)) results)" "mset results' = mset results"
    using byIndex_perm [OF that] by (simp add: aligned_def)
qed (simp_all add: pending_def)

section \<open>Collect after Submit\<close>

text \<open>
  Claim C4 says that Collect uses, for each job index with an accumulated completion,
  the completed handle. The code does so only where \<open>onCollect\<close> runs in a render that has
  seen the completions. The call at the end of \<open>onSubmit\<close> (auto-collect, switched on by
  default) runs the \<open>onCollect\<close> of the render in which Submit was clicked: whatever the
  workers have accumulated, the results become the array aligned with the results of
  that render, and those are empty after a Build, so that every job gets a placeholder
  with status \<open>queued\<close> and no result fields, and the accumulated completions are
  overwritten. The length and the index order are as the claim says.
\<close>

theorem onSubmit_autoCollect_drops_completions:
  assumes "jobs_state render \<noteq> []" "autoCollect_state render"
  shows "results_state (onSubmit render rnd now finished clock live) =
           aligned (jobs_state render) (results_state render) clock
     \<and> length (results_state (onSubmit render rnd now finished clock live)) =
           length (jobs_state render)
     \<and> map (\<lambda>h. index (job h)) (results_state (onSubmit render rnd now finished clock live)) =
           map index (jobs_state render)
     \<and> (results_state render = [] \<longrightarrow>
           results_state (onSubmit render rnd now finished clock live) =
             map (\<lambda>(n, j). pending j (clock n)) (enumerate 0 (jobs_state render))
         \<and> (\<forall>h\<in>set (results_state (onSubmit render rnd now finished clock live)).
               status h = Queued \<and> finish_ts h = None \<and> result_placeholder h = None
             \<and> error h = None))"
proof -
  have run: "results_state (onSubmit render rnd now finished clock live) =
      aligned (jobs_state render) (results_state render) clock"
    using assms by (simp add: onSubmit_def onCollect_def Let_def)
  have len: "length (aligned (jobs_state render) (results_state render) clock) =
      length (jobs_state render)"
    by (simp add: aligned_def)
  have idx: "map (\<lambda>h. index (job h)) (aligned (jobs_state render) (results_state render) clock) =
      map index (jobs_state render)"
    by (rule nth_equalityI) (simp_all add: len aligned_index)
  have empty: "aligned (jobs_state render) [] clock =
      map (\<lambda>(n, j). pending j (clock n)) (enumerate 0 (jobs_state render))"
    by (simp add: aligned_def byIndex_def)
  have "status h = Queued \<and> finish_ts h = None \<and> result_placeholder h = None \<and> error h = None"
    if "h \<in> set (map (\<lambda>(n, j). pending j (clock n)) (enumerate 0 (jobs_state render)))" for h
    using that by (auto simp: pending_def)
  then show ?thesis using run len idx empty by auto
qed

text \<open>
  Build one job, then Submit with auto-collect on; the job succeeds. The results end as
  one placeholder. With auto-collect off they are the completion that the worker stored.
\<close>

theorem onSubmit_autoCollect_drops_completions_witness:
  "(let render = onBuildJobs ONE_TO_MANY (JArr []) (JArr [JStr ''p1'']) JUndefined ()
                   \<lparr>jobs_state = [], handles_state = [], results_state = [],
                    autoCollect_state = True\<rparr>;
        completion = simulateSubmit (jobs_state render ! 0) ''aaaaaaaa'' 1000
                 \<lparr>status := Succeeded, result_placeholder := Some ''OK:0'',
                  finish_ts := Some 2000\<rparr>;
        after = onSubmit render (\<lambda>n. ''aaaaaaaa'') (\<lambda>n. 1000) [completion] (\<lambda>n. 3000) render;
        manual = onSubmit (render\<lparr>autoCollect_state := False\<rparr>) (\<lambda>n. ''aaaaaaaa'') (\<lambda>n. 1000)
                   [completion] (\<lambda>n. 3000) render
    in length (jobs_state render) = 1
     \<and> autoCollect_state render
     \<and> results_state render = []
     \<and> index (job completion) = 0
     \<and> status completion = Succeeded
     \<and> results_state manual = [completion]
     \<and> length (results_state after) = 1
     \<and> map status (results_state after) = [Queued]
     \<and> map job_id (results_state after) = [''pending_0'']
     \<and> map result_placeholder (results_state after) = [None])"
proof -
  define render :: "unit app" where
    "render = onBuildJobs ONE_TO_MANY (JArr []) (JArr [JStr ''p1'']) JUndefined ()
                \<lparr>jobs_state = [], handles_state = [], results_state = [],
                 autoCollect_state = True\<rparr>"
  define completion where
    "completion = simulateSubmit (jobs_state render ! 0) ''aaaaaaaa'' 1000
              \<lparr>status := Succeeded, result_placeholder := Some ''OK:0'', finish_ts := Some 2000\<rparr>"
  define after where
    "after = onSubmit render (\<lambda>n. ''aaaaaaaa'') (\<lambda>n. 1000) [completion] (\<lambda>n. 3000) render"
  define manual where
    "manual = onSubmit (render\<lparr>autoCollect_state := False\<rparr>) (\<lambda>n. ''aaaaaaaa'') (\<lambda>n. 1000)
                [completion] (\<lambda>n. 3000) render"
  have r: "render = \<lparr>jobs_state = [\<lparr>index = 0, prompt = JStr ''p1'', refs = JArr [], payload = ()\<rparr>],
      handles_state = [], results_state = [], autoCollect_state = True\<rparr>"
    by (simp add: render_def onBuildJobs_def buildJobs_def cleanedSharedRefs_def toArraySafe_def)
  have ne: "jobs_state render \<noteq> []" and ac: "autoCollect_state render"
    and em: "results_state render = []" and l1: "length (jobs_state render) = 1"
    by (simp_all add: r)
  have d: "index (job completion) = 0" "status completion = Succeeded"
    by (simp_all add: completion_def r simulateSubmit_def)
  have m: "results_state manual = [completion]"
    by (simp add: manual_def onSubmit_def r upsert_def)
  note T = onSubmit_autoCollect_drops_completions [OF ne ac,
      of "\<lambda>n. ''aaaaaaaa''" "\<lambda>n. 1000" "[completion]" "\<lambda>n. 3000" render]
  have zero: "string_of_nat 0 = ''0''"
    by (simp add: string_of_nat.simps digit_char_def)
  from T em have "results_state after =
      map (\<lambda>(n, j). pending j 3000) (enumerate 0 (jobs_state render))"
    unfolding after_def by blast
  then have a': "results_state after = [pending (jobs_state render ! 0) 3000]"
    by (simp add: r)
  show ?thesis
    unfolding Let_def render_def [symmetric] completion_def [symmetric] after_def [symmetric]
      manual_def [symmetric]
    using l1 ac em d m by (simp add: a' pending_def zero r)
qed

section \<open>The concurrency pool: what every run keeps\<close>

lemma pump_core:
  "pool_core outcome items k s \<Longrightarrow>
   pool_core outcome items k (pump k s)
   \<and> res (pump k s) = res s
   \<and> completed (pump k s) = completed s
   \<and> resolved (pump k s) = resolved s
   \<and> finishing (pump k s) = finishing s
   \<and> (k \<le> inFlight (pump k s) \<or> i_next (pump k s) = length items)"
proof (induction k s rule: pump.induct)
  case (1 k s)
  show ?case
  proof (cases "inFlight s < k \<and> i_next s < length (q s)")
    case False
    then have "pump k s = s" by (simp add: pump.simps)
    then show ?thesis using "1.prems" False by (auto simp: pool_core_def)
  next
    case True
    let ?s = "s\<lparr>i_next := Suc (i_next s), inFlight := inFlight s + 1,
                 running := running s @ [i_next s], calls := calls s @ [q s ! i_next s]\<rparr>"
    have eq: "pump k s = pump k ?s" using True by (subst pump.simps) simp
    have "pool_core outcome items k ?s"
      using "1.prems" True by (simp add: pool_core_def take_Suc_conv_app_nth)
    from "1.IH" [OF True this] show ?thesis by (simp add: eq)
  qed
qed

lemma core_sizes:
  "pool_core outcome items k s \<Longrightarrow> length (res s) + length (running s) = i_next s"
proof -
  assume core: "pool_core outcome items k s"
  then have "mset (completed s) + mset (running s) = mset [0..<i_next s]"
    by (simp add: pool_core_def)
  then have "size (mset (completed s) + mset (running s)) = size (mset [0..<i_next s])"
    by simp
  moreover have "length (res s) = length (completed s)"
    using core by (simp add: pool_core_def)
  ultimately show ?thesis by simp
qed

lemma core_results:
  "pool_core outcome items k s \<Longrightarrow>
   mset (res s) + mset (map outcome (running s)) = mset (map outcome [0..<i_next s])"
proof -
  assume core: "pool_core outcome items k s"
  then have "mset (completed s) + mset (running s) = mset [0..<i_next s]"
    by (simp add: pool_core_def)
  then have "image_mset outcome (mset (completed s) + mset (running s)) =
      image_mset outcome (mset [0..<i_next s])" by simp
  then show ?thesis using core by (simp add: pool_core_def)
qed

lemma start_inv:
  fixes outcome :: "nat \<Rightarrow> 'r" and items :: "'t list"
  assumes "items \<noteq> []" "1 \<le> k"
  shows "pool_inv outcome items k (runWithConcurrency items k)"
proof -
  let ?s0 = "\<lparr>q = items, res = [], inFlight = 0, i_next = 0, running = [], finishing = 0,
              resolved = False, calls = [], completed = []\<rparr> :: ('t, 'r) pool"
  have "pool_core outcome items k ?s0" using assms(2) by (simp add: pool_core_def)
  from pump_core [OF this] show ?thesis
    using assms(1) by (simp add: pool_inv_def runWithConcurrency_def)
qed

lemma then_inv:
  assumes "pool_inv outcome items k s" "j < length (running s)"
  shows "pool_inv outcome items k (on_then outcome j s)"
    and "pool_measure items (on_then outcome j s) < pool_measure items s"
proof -
  have core: "pool_core outcome items k s" using assms(1) by (simp add: pool_inv_def)
  have sz: "length (res s) + length (running s) = i_next s" by (rule core_sizes [OF core])
  have le: "i_next s \<le> length items" using core by (simp add: pool_core_def)
  have lt: "length (res s) < length items" using sz le assms(2) by simp
  have nres: "\<not> resolved s" using assms(1) lt by (auto simp: pool_inv_def)
  have split: "running s = take j (running s) @ running s ! j # drop (Suc j) (running s)"
    using assms(2) by (rule id_take_nth_drop)
  have "mset (running s) =
      mset (take j (running s) @ drop (Suc j) (running s)) + {#running s ! j#}"
    by (subst split) simp
  then have ms: "mset (completed s @ [running s ! j])
        + mset (take j (running s) @ drop (Suc j) (running s))
      = mset [0..<i_next s]"
    using core by (simp add: pool_core_def)
  have "pool_core outcome items k (on_then outcome j s)"
    using core assms(2) ms by (simp add: pool_core_def on_then_def)
  then show "pool_inv outcome items k (on_then outcome j s)"
    using assms(1) nres by (simp add: pool_inv_def on_then_def)
  show "pool_measure items (on_then outcome j s) < pool_measure items s"
    using lt by (simp add: pool_measure_def on_then_def)
qed

lemma finally_inv:
  assumes "pool_inv outcome items k s" "0 < finishing s"
  shows "pool_inv outcome items k (on_finally items k s)"
    and "pool_measure items (on_finally items k s) < pool_measure items s"
proof -
  let ?s1 = "s\<lparr>inFlight := inFlight s - 1, finishing := finishing s - 1\<rparr>"
  have core: "pool_core outcome items k s" using assms(1) by (simp add: pool_inv_def)
  have core1: "pool_core outcome items k ?s1"
    using core assms(2) by (simp add: pool_core_def)
  have sz: "length (res s) + length (running s) = i_next s" by (rule core_sizes [OF core])
  have le: "i_next s \<le> length items" using core by (simp add: pool_core_def)
  show "pool_inv outcome items k (on_finally items k s)"
  proof (cases "length (res s) = length items")
    case True
    then have "i_next s = length items" using sz le by simp
    then show ?thesis
      using True core1 by (simp add: pool_inv_def on_finally_def pool_core_def Let_def)
  next
    case False
    then have "\<not> resolved s" using assms(1) by (auto simp: pool_inv_def)
    then show ?thesis
      using False pump_core [OF core1] by (simp add: pool_inv_def on_finally_def Let_def)
  qed
  show "pool_measure items (on_finally items k s) < pool_measure items s"
    using assms(2) pump_core [OF core1]
    by (simp add: pool_measure_def on_finally_def Let_def)
qed

lemma reach_inv:
  assumes "items \<noteq> []" "1 \<le> k" "pool_reach outcome items k s"
  shows "pool_inv outcome items k s"
  using assms(3)
proof (induction rule: pool_reach.induct)
  case reach_start
  then show ?case by (rule start_inv [OF assms(1,2)])
next
  case (reach_step s s')
  from reach_step.hyps(2) reach_step.IH show ?case
    by (cases rule: pool_step.cases) (simp_all add: then_inv finally_inv)
qed

lemma step_measure:
  assumes "pool_inv outcome items k s" "pool_step outcome items k s s'"
  shows "pool_measure items s' < pool_measure items s"
  using assms(2,1) by (cases rule: pool_step.cases) (simp_all add: then_inv finally_inv)

lemma stuck_resolved:
  assumes "1 \<le> k" "pool_inv outcome items k s" "\<forall>s'. \<not> pool_step outcome items k s s'"
  shows "resolved s"
proof -
  have r: "running s = []"
  proof (rule ccontr)
    assume "running s \<noteq> []"
    then have "0 < length (running s)" by simp
    then have "pool_step outcome items k s (on_then outcome 0 s)" by (rule then_step)
    with assms(3) show False by blast
  qed
  have f: "finishing s = 0"
  proof (rule ccontr)
    assume "finishing s \<noteq> 0"
    then have "0 < finishing s" by simp
    then have "pool_step outcome items k s (on_finally items k s)" by (rule finally_step)
    with assms(3) show False by blast
  qed
  have core: "pool_core outcome items k s" using assms(2) by (simp add: pool_inv_def)
  then have "inFlight s = 0" using r f by (simp add: pool_core_def)
  then have "i_next s = length items" using assms(1,2) by (auto simp: pool_inv_def)
  moreover have "length (res s) + length (running s) = i_next s" by (rule core_sizes [OF core])
  ultimately have "length (res s) = length items" using r by simp
  then show ?thesis using assms(2) f by (auto simp: pool_inv_def)
qed

lemma reach_measure:
  fixes outcome :: "nat \<Rightarrow> 'r" and items :: "'t list"
  assumes "items \<noteq> []" "1 \<le> k" "pool_reach outcome items k s"
  shows "pool_measure items s \<le> 2 * length items"
  using assms(3)
proof (induction rule: pool_reach.induct)
  case reach_start
  let ?s0 = "\<lparr>q = items, res = [], inFlight = 0, i_next = 0, running = [], finishing = 0,
              resolved = False, calls = [], completed = []\<rparr> :: ('t, 'r) pool"
  have "pool_core outcome items k ?s0" using assms(2) by (simp add: pool_core_def)
  from pump_core [OF this] show ?case
    by (simp add: pool_measure_def runWithConcurrency_def)
next
  case (reach_step s s')
  have "pool_inv outcome items k s"
    using reach_inv [OF assms(1,2) reach_step.hyps(1)] .
  from step_measure [OF this reach_step.hyps(2)] reach_step.IH show ?case by simp
qed

lemma resolution_reachable:
  assumes "items \<noteq> []" "1 \<le> k" "pool_reach outcome items k s"
  shows "\<exists>s'. (pool_step outcome items k)\<^sup>*\<^sup>* s s' \<and> resolved s'"
  using assms(3)
proof (induction "pool_measure items s" arbitrary: s rule: less_induct)
  case less
  have inv: "pool_inv outcome items k s" using reach_inv [OF assms(1,2) less.prems] .
  show ?case
  proof (cases "resolved s")
    case True
    then show ?thesis by blast
  next
    case False
    then obtain s1 where st: "pool_step outcome items k s s1"
      using stuck_resolved [OF assms(2) inv] by blast
    have "pool_measure items s1 < pool_measure items s" by (rule step_measure [OF inv st])
    moreover have "pool_reach outcome items k s1"
      using less.prems st by (rule pool_reach.reach_step)
    ultimately obtain s' where "(pool_step outcome items k)\<^sup>*\<^sup>* s1 s'" "resolved s'"
      using less.hyps by blast
    then show ?thesis using st by (meson converse_rtranclp_into_rtranclp)
  qed
qed

text \<open>
  Claim C9. For a non-empty item list, a worker that always resolves and \<open>k \<ge> 1\<close>, in
  every state that a run of \<open>runWithConcurrency\<close> reaches, under every interleaving of the
  callbacks: at most \<open>k\<close> worker invocations are in flight; the worker has been called on
  the first \<open>i_next\<close> items, once each and in order, and on every item once the promise is
  resolved; every call made is either in flight or completed, and not twice; \<open>res\<close> holds
  the results of the completed calls in the order of their completion (it is the
  completion history mapped to the results), which need not be the order of the items, as
  the witness below shows. Once the promise is resolved, the completion history is a
  rearrangement of all the positions, so \<open>res\<close> holds exactly \<open>length items\<close> results, one
  for each item. The run does end resolved: every callback lowers \<open>pool_measure\<close>, which
  starts at most at \<open>2 * length items\<close>, a state in which no callback is due is resolved,
  and resolution is reachable from every state.
\<close>

theorem runWithConcurrency_guarantees:
  assumes "items \<noteq> []" "1 \<le> k" "pool_reach outcome items k s"
  shows "int (length (running s)) \<le> k
     \<and> inFlight s \<le> k
     \<and> calls s = take (i_next s) items
     \<and> res s = map outcome (completed s)
     \<and> mset (completed s) + mset (running s) = mset [0..<i_next s]
     \<and> (resolved s \<longrightarrow>
           calls s = items \<and> running s = [] \<and> length (res s) = length items
         \<and> mset (completed s) = mset [0..<length items]
         \<and> mset (res s) = mset (map outcome [0..<length items]))
     \<and> ((\<forall>s'. \<not> pool_step outcome items k s s') \<longrightarrow> resolved s)
     \<and> (\<forall>s'. pool_step outcome items k s s' \<longrightarrow> pool_measure items s' < pool_measure items s)
     \<and> pool_measure items s \<le> 2 * length items
     \<and> (\<exists>s'. (pool_step outcome items k)\<^sup>*\<^sup>* s s' \<and> resolved s')"
proof -
  have inv: "pool_inv outcome items k s" by (rule reach_inv [OF assms])
  then have core: "pool_core outcome items k s" by (simp add: pool_inv_def)
  have sz: "length (res s) + length (running s) = i_next s" by (rule core_sizes [OF core])
  have "int (length (running s)) \<le> k" "inFlight s \<le> k" "calls s = take (i_next s) items"
    "res s = map outcome (completed s)"
    "mset (completed s) + mset (running s) = mset [0..<i_next s]"
    using core by (simp_all add: pool_core_def)
  moreover have "calls s = items \<and> running s = [] \<and> length (res s) = length items
         \<and> mset (completed s) = mset [0..<length items]
         \<and> mset (res s) = mset (map outcome [0..<length items])" if "resolved s"
  proof -
    have len: "length (res s) = length items" using inv that by (simp add: pool_inv_def)
    moreover have le: "i_next s \<le> length items" using core by (simp add: pool_core_def)
    ultimately have "length (running s) = 0" and i: "i_next s = length items"
      using sz by linarith+
    then show ?thesis using core core_results [OF core] len by (simp add: pool_core_def)
  qed
  moreover have "resolved s" if "\<forall>s'. \<not> pool_step outcome items k s s'"
    using stuck_resolved [OF assms(2) inv that] .
  moreover have "\<forall>s'. pool_step outcome items k s s' \<longrightarrow>
      pool_measure items s' < pool_measure items s"
    using step_measure [OF inv] by blast
  moreover have "pool_measure items s \<le> 2 * length items" by (rule reach_measure [OF assms])
  moreover have "\<exists>s'. (pool_step outcome items k)\<^sup>*\<^sup>* s s' \<and> resolved s'"
    by (rule resolution_reachable [OF assms])
  ultimately show ?thesis by blast
qed

text \<open>
  Two items at concurrency 2, the second call completing first: both \<open>then\<close> callbacks
  run, then both \<open>finally\<close> callbacks. The results are in completion order.
\<close>

theorem runWithConcurrency_guarantees_witness:
  "(let items = [''a'', ''b''];
        outcome = (\<lambda>p. p);
        s0 = runWithConcurrency items 2 :: (string, nat) pool;
        s1 = on_then outcome 1 s0;
        s2 = on_then outcome 0 s1;
        s3 = on_finally items 2 s2;
        s4 = on_finally items 2 s3
    in pool_reach outcome items 2 s4
     \<and> resolved s4
     \<and> completed s4 = [1, 0]
     \<and> res s4 = map outcome (completed s4)
     \<and> res s4 = [1, 0]
     \<and> calls s4 = items
     \<and> mset (res s4) = mset (map outcome [0..<length items])
     \<and> \<not> (\<exists>s'. pool_step outcome items 2 s4 s')
     \<and> int (length (running s0)) \<le> 2
     \<and> pool_step outcome items 2 s0 s1
     \<and> pool_measure items s1 < pool_measure items s0)"
proof -
  define items where "items = [''a'', ''b'']"
  define outcome :: "nat \<Rightarrow> nat" where "outcome = (\<lambda>p. p)"
  define s0 :: "(string, nat) pool" where "s0 = runWithConcurrency items 2"
  define s1 where "s1 = on_then outcome 1 s0"
  define s2 where "s2 = on_then outcome 0 s1"
  define s3 where "s3 = on_finally items 2 s2"
  define s4 where "s4 = on_finally items 2 s3"
  have ne: "items \<noteq> []" and k: "(1::int) \<le> 2" by (simp_all add: items_def)
  have e0: "s0 = \<lparr>q = items, res = [], inFlight = 2, i_next = 2, running = [0, 1],
      finishing = 0, resolved = False, calls = items, completed = []\<rparr>"
    by (simp add: s0_def runWithConcurrency_def pump.simps items_def)
  have e1: "s1 = \<lparr>q = items, res = [1], inFlight = 2, i_next = 2, running = [0],
      finishing = 1, resolved = False, calls = items, completed = [1]\<rparr>"
    by (simp add: s1_def e0 on_then_def outcome_def)
  have e2: "s2 = \<lparr>q = items, res = [1, 0], inFlight = 2, i_next = 2, running = [],
      finishing = 2, resolved = False, calls = items, completed = [1, 0]\<rparr>"
    by (simp add: s2_def e1 on_then_def outcome_def)
  have e3: "s3 = \<lparr>q = items, res = [1, 0], inFlight = 1, i_next = 2, running = [],
      finishing = 1, resolved = True, calls = items, completed = [1, 0]\<rparr>"
    by (simp add: s3_def e2 on_finally_def items_def)
  have e4: "s4 = \<lparr>q = items, res = [1, 0], inFlight = 0, i_next = 2, running = [],
      finishing = 0, resolved = True, calls = items, completed = [1, 0]\<rparr>"
    by (simp add: s4_def e3 on_finally_def items_def)
  have r0: "pool_reach outcome items 2 s0"
    unfolding s0_def by (rule pool_reach.reach_start)
  have st01: "pool_step outcome items 2 s0 s1"
    unfolding s1_def by (rule pool_step.then_step) (simp add: e0)
  have st12: "pool_step outcome items 2 s1 s2"
    unfolding s2_def by (rule pool_step.then_step) (simp add: e1)
  have st23: "pool_step outcome items 2 s2 s3"
    unfolding s3_def by (rule pool_step.finally_step) (simp add: e2)
  have st34: "pool_step outcome items 2 s3 s4"
    unfolding s4_def by (rule pool_step.finally_step) (simp add: e3)
  have r4: "pool_reach outcome items 2 s4"
    using r0 st01 st12 st23 st34 by (blast intro: pool_reach.reach_step)
  have stuck: "\<forall>s'. \<not> pool_step outcome items 2 s4 s'"
    by (auto simp: e4 elim: pool_step.cases)
  note T4 = runWithConcurrency_guarantees [OF ne k r4]
  note T0 = runWithConcurrency_guarantees [OF ne k r0]
  from T4 stuck have res4: "resolved s4" by blast
  with T4 have fin: "calls s4 = items"
    "mset (res s4) = mset (map outcome [0..<length items])" by blast+
  from T4 have hist: "res s4 = map outcome (completed s4)" by blast
  have comp: "completed s4 = [1, 0]" by (simp add: e4)
  from T0 have fl: "int (length (running s0)) \<le> 2" by blast
  from T0 st01 have dec: "pool_measure items s1 < pool_measure items s0" by blast
  have order: "res s4 = [1, 0]" by (simp add: e4)
  show ?thesis
    unfolding Let_def items_def [symmetric] outcome_def [symmetric] s0_def [symmetric]
      s1_def [symmetric] s2_def [symmetric] s3_def [symmetric] s4_def [symmetric]
    using r4 res4 order fin stuck fl st01 dec hist comp by blast
qed

section \<open>The concurrency pool on an empty item list\<close>

text \<open>
  Claim C3 says that on an empty item list the pool resolves at once with an empty
  result list and never calls the worker. The code does the second and not the first:
  \<open>pump\<close> starts nothing, and \<open>resolve\<close> is called from a \<open>finally\<close> callback only, so
  the only state of the run is the first one, in which the promise is not resolved and no
  callback is due.
\<close>

theorem runWithConcurrency_empty_never_resolves:
  fixes outcome :: "nat \<Rightarrow> 'r" and s :: "('t, 'r) pool"
  assumes "pool_reach outcome [] k s"
  shows "s = runWithConcurrency [] k \<and> \<not> resolved s \<and> calls s = [] \<and> res s = []
     \<and> running s = [] \<and> finishing s = 0 \<and> completed s = []
     \<and> (\<forall>s'. \<not> pool_step outcome [] k s s')"
proof -
  have start: "runWithConcurrency [] k =
      (\<lparr>q = [], res = [], inFlight = 0, i_next = 0, running = [], finishing = 0,
        resolved = False, calls = [], completed = []\<rparr> :: ('t, 'r) pool)"
    by (simp add: runWithConcurrency_def pump.simps)
  have stuck: "\<not> pool_step outcome [] k (runWithConcurrency [] k) s'" for s' :: "('t, 'r) pool"
    by (auto simp: start elim: pool_step.cases)
  from assms have "s = runWithConcurrency [] k"
  proof (induction rule: pool_reach.induct)
    case reach_start
    show ?case ..
  next
    case (reach_step s s')
    then show ?case using stuck by blast
  qed
  then show ?thesis using stuck by (simp add: start)
qed

text \<open>The empty list at the default concurrency 3.\<close>

theorem runWithConcurrency_empty_never_resolves_witness:
  "pool_reach (\<lambda>p. p) ([] :: string list) 3 (runWithConcurrency [] 3 :: (string, nat) pool)
   \<and> \<not> resolved (runWithConcurrency ([] :: string list) 3 :: (string, nat) pool)
   \<and> calls (runWithConcurrency ([] :: string list) 3 :: (string, nat) pool) = []
   \<and> \<not> (\<exists>s'. pool_step (\<lambda>p. p) ([] :: string list) 3 (runWithConcurrency [] 3) s')"
  using runWithConcurrency_empty_never_resolves
    [OF pool_reach.reach_start [of "\<lambda>p. p" "[] :: string list" 3]]
  by (simp add: pool_reach.reach_start)

end
